theory Spec2Isabelle
  imports Main "HOL-Library.Word"
begin

section \<open>Machine integers and buffers\<close>

text \<open>
  The translator of \<^verbatim>\<open>AT45BlockDevice.h\<close> computes with three integer types:
  \<^verbatim>\<open>bd_addr_t\<close> and \<^verbatim>\<open>bd_size_t\<close> (both \<^verbatim>\<open>uint64_t\<close> in the block device
  interface of Mbed OS), \<^verbatim>\<open>uint32_t\<close>, and \<^verbatim>\<open>size_t\<close> (32 bits on the Cortex-M
  targets the driver is written for). Values are natural numbers here and every
  conversion or wrap-around of the source is written out with one of the three
  functions below.
\<close>

type_synonym byte = "8 word"

definition u32 :: "nat \<Rightarrow> nat" where
  "u32 n = n mod 2 ^ 32"

definition u64 :: "nat \<Rightarrow> nat" where
  "u64 n = n mod 2 ^ 64"

definition size_t :: "nat \<Rightarrow> nat" where
  "size_t n = n mod 2 ^ 32"

text \<open>
  \<^verbatim>\<open>memcpy(dst + d, src + s, n)\<close> on buffers held as lists. The caller has to own
  \<open>n\<close> bytes at both places (anything else is undefined in C); the theorems below
  state that as a hypothesis on the lengths.
\<close>

definition memcpy :: "byte list \<Rightarrow> nat \<Rightarrow> byte list \<Rightarrow> nat \<Rightarrow> nat \<Rightarrow> byte list" where
  "memcpy dst d src s n = take d dst @ take n (drop s src) @ drop (d + n) dst"

text \<open>\<^verbatim>\<open>memset(dst, c, n)\<close>.\<close>

definition memset :: "byte list \<Rightarrow> byte \<Rightarrow> nat \<Rightarrow> byte list" where
  "memset dst c n = replicate n c @ drop n dst"

section \<open>The storage primitive\<close>

text \<open>
  Modelled from the spec: the chip driver (\<^verbatim>\<open>AT45.h\<close>, not part of the sources) is
  the external collaborator of section 6 of the specification: a geometry, and
  two page primitives that move exactly one whole page or fail with an error code,
  partial transfers not being a recognised outcome. It is modelled as a call-counting
  stand-in: the flash contents by page index, the list of primitive calls issued so
  far, and a fault schedule that gives the return code of the n-th primitive call
  (0 is success). A failed \<^verbatim>\<open>read_page\<close> leaves the caller's buffer alone and a failed
  \<^verbatim>\<open>write_page\<close> leaves the flash alone.
\<close>

datatype call = ReadPage nat | WritePage nat "byte list"

record AT45 =
  chip_pagesize :: nat
  chip_pages :: nat
  flash :: "nat \<Rightarrow> byte list"
  faults :: "nat \<Rightarrow> int"
  calls :: "call list"

definition read_page :: "AT45 \<Rightarrow> byte list \<Rightarrow> nat \<Rightarrow> int \<times> byte list \<times> AT45" where
  "read_page chip buf page =
     (let r = faults chip (length (calls chip))
      in (r, if r = 0 then flash chip page else buf,
          chip\<lparr>calls := calls chip @ [ReadPage page]\<rparr>))"

definition write_page :: "AT45 \<Rightarrow> byte list \<Rightarrow> nat \<Rightarrow> int \<times> AT45" where
  "write_page chip buf page =
     (let r = faults chip (length (calls chip))
      in (r, chip\<lparr>calls := calls chip @ [WritePage page buf],
                  flash := (if r = 0 then (flash chip)(page := buf) else flash chip)\<rparr>))"

section \<open>The block device\<close>

definition BD_ERROR_OK :: int where
  "BD_ERROR_OK = 0"

definition BD_ERROR_NO_MEMORY :: int where
  "BD_ERROR_NO_MEMORY = - 4002"

definition BD_ERROR_NOT_INITIALIZED :: int where
  "BD_ERROR_NOT_INITIALIZED = - 4003"

text \<open>
  The members of the class. \<open>pagebuffer\<close> is a pointer: \<open>None\<close> is the null pointer,
  \<open>Some pb\<close> a buffer with contents \<open>pb\<close>.
\<close>

record AT45BlockDevice =
  at45 :: AT45
  pagesize :: nat
  totalsize :: nat
  pagebuffer :: "byte list option"
  last_page :: nat

text \<open>
  The constructor assigns \<open>pagesize\<close>, \<open>totalsize\<close> and \<open>last_page\<close> and nothing else:
  \<open>pagebuffer\<close> has no initialiser, so the member keeps whatever the storage of the
  object held before. That indeterminate value is the second argument.
\<close>

definition AT45BlockDevice :: "AT45 \<Rightarrow> byte list option \<Rightarrow> AT45BlockDevice" where
  "AT45BlockDevice chip indeterminate =
     \<lparr>at45 = chip,
      pagesize = u64 (chip_pagesize chip),
      totalsize = u64 (u64 (chip_pagesize chip) * u64 (chip_pages chip)),
      pagebuffer = indeterminate,
      last_page = 0xffffffff\<rparr>"

text \<open>\<^verbatim>\<open>init\<close>; the argument says whether \<^verbatim>\<open>calloc\<close> returns a buffer.\<close>

definition init :: "AT45BlockDevice \<Rightarrow> bool \<Rightarrow> int \<times> AT45BlockDevice" where
  "init st calloc_ok =
     (if calloc_ok
      then (BD_ERROR_OK, st\<lparr>pagebuffer := Some (replicate (size_t (pagesize st)) 0)\<rparr>)
      else (BD_ERROR_NO_MEMORY, st\<lparr>pagebuffer := None\<rparr>))"

text \<open>The buffer behind the pointer, inside the loops (where the pointer is not null).\<close>

definition pb :: "AT45BlockDevice \<Rightarrow> byte list" where
  "pb st = (case pagebuffer st of Some b \<Rightarrow> b | None \<Rightarrow> [])"

subsection \<open>program\<close>

text \<open>
  One iteration of the \<^verbatim>\<open>while\<close> loop of \<^verbatim>\<open>program\<close>: either the value the function
  returns from inside the loop (\<open>Inl\<close>), or the device and the loop variables
  \<open>buffer\<close> (as an offset into the source buffer), \<open>addr\<close> and \<open>bytes_left\<close> for the
  next iteration.
\<close>

definition program_step ::
  "AT45BlockDevice \<Rightarrow> byte list \<Rightarrow> nat \<Rightarrow> nat \<Rightarrow> nat \<Rightarrow>
   (int \<times> AT45BlockDevice) + (AT45BlockDevice \<times> nat \<times> nat \<times> nat)" where
  "program_step st buffer pos addr bytes_left =
     (let page = u32 (addr div pagesize st);
          offset = u32 (addr mod pagesize st);
          length0 = u32 (pagesize st - offset);
          len = (if length0 > bytes_left then bytes_left else length0);
          (r, b, chip) =
            (if last_page st \<noteq> page then read_page (at45 st) (pb st) page
             else (0, pb st, at45 st))
      in if r \<noteq> 0 then Inl (r, st\<lparr>at45 := chip, pagebuffer := Some b\<rparr>)
         else
           let b' = memcpy b offset buffer pos len;
               (r', chip') = write_page chip b' page
           in if r' \<noteq> 0 then Inl (r', st\<lparr>at45 := chip', pagebuffer := Some b'\<rparr>)
              else Inr (st\<lparr>at45 := chip', pagebuffer := Some b', last_page := page\<rparr>,
                        pos + len, u64 (addr + len), bytes_left - len))"

partial_function (option) program_loop ::
  "AT45BlockDevice \<Rightarrow> byte list \<Rightarrow> nat \<Rightarrow> nat \<Rightarrow> nat \<Rightarrow> (int \<times> AT45BlockDevice) option" where
  "program_loop st buffer pos addr bytes_left =
     (if bytes_left > 0 then
        (case program_step st buffer pos addr bytes_left of
           Inl res \<Rightarrow> Some res
         | Inr (st', pos', addr', bytes_left') \<Rightarrow> program_loop st' buffer pos' addr' bytes_left')
      else Some (BD_ERROR_OK, st))"

definition program ::
  "AT45BlockDevice \<Rightarrow> byte list \<Rightarrow> nat \<Rightarrow> nat \<Rightarrow> (int \<times> AT45BlockDevice) option" where
  "program st a_buffer addr sz =
     (case pagebuffer st of
        None \<Rightarrow> Some (BD_ERROR_NOT_INITIALIZED, st)
      | Some _ \<Rightarrow> program_loop st a_buffer 0 (u64 addr) (size_t sz))"

subsection \<open>read\<close>

text \<open>
  One iteration of the loop of \<^verbatim>\<open>read\<close>. The destination buffer is a list that the
  iteration updates at the cursor \<open>pos\<close>.
\<close>

definition read_step ::
  "AT45BlockDevice \<Rightarrow> byte list \<Rightarrow> nat \<Rightarrow> nat \<Rightarrow> nat \<Rightarrow>
   (int \<times> byte list \<times> AT45BlockDevice) + (AT45BlockDevice \<times> byte list \<times> nat \<times> nat \<times> nat)" where
  "read_step st buffer pos addr bytes_left =
     (let page = u32 (addr div pagesize st);
          offset = u32 (addr mod pagesize st);
          length0 = u32 (pagesize st - offset);
          len = (if length0 > bytes_left then bytes_left else length0);
          (r, b, chip) =
            (if last_page st \<noteq> page then read_page (at45 st) (pb st) page
             else (0, pb st, at45 st))
      in if r \<noteq> 0 then Inl (r, buffer, st\<lparr>at45 := chip, pagebuffer := Some b\<rparr>)
         else Inr (st\<lparr>at45 := chip, pagebuffer := Some b, last_page := page\<rparr>,
                   memcpy buffer pos b offset len,
                   pos + len, u64 (addr + len), bytes_left - len))"

partial_function (option) read_loop ::
  "AT45BlockDevice \<Rightarrow> byte list \<Rightarrow> nat \<Rightarrow> nat \<Rightarrow> nat \<Rightarrow>
   (int \<times> byte list \<times> AT45BlockDevice) option" where
  "read_loop st buffer pos addr bytes_left =
     (if bytes_left > 0 then
        (case read_step st buffer pos addr bytes_left of
           Inl res \<Rightarrow> Some res
         | Inr (st', buffer', pos', addr', bytes_left') \<Rightarrow>
             read_loop st' buffer' pos' addr' bytes_left')
      else Some (BD_ERROR_OK, buffer, st))"

definition read ::
  "AT45BlockDevice \<Rightarrow> byte list \<Rightarrow> nat \<Rightarrow> nat \<Rightarrow> (int \<times> byte list \<times> AT45BlockDevice) option" where
  "read st a_buffer addr sz =
     (case pagebuffer st of
        None \<Rightarrow> Some (BD_ERROR_NOT_INITIALIZED, a_buffer, st)
      | Some _ \<Rightarrow> read_loop st a_buffer 0 (u64 addr) (size_t sz))"

subsection \<open>erase\<close>

text \<open>
  The \<^verbatim>\<open>for\<close> loop of \<^verbatim>\<open>erase\<close>, with its counter \<open>ix\<close> of type \<^verbatim>\<open>size_t\<close>. The result
  is the code of the failing write, or 0 when the loop runs to its end.
\<close>

partial_function (option) erase_loop ::
  "AT45BlockDevice \<Rightarrow> nat \<Rightarrow> nat \<Rightarrow> (int \<times> AT45BlockDevice) option" where
  "erase_loop st ix end_page =
     (if ix \<le> end_page then
        (case write_page (at45 st) (pb st) ix of
           (r, chip) \<Rightarrow>
             if r \<noteq> 0 then Some (r, st\<lparr>at45 := chip\<rparr>)
             else erase_loop (st\<lparr>at45 := chip\<rparr>) (size_t (ix + 1)) end_page)
      else Some (0, st))"

definition erase ::
  "AT45BlockDevice \<Rightarrow> nat \<Rightarrow> nat \<Rightarrow> (int \<times> AT45BlockDevice) option" where
  "erase st addr sz =
     (case pagebuffer st of
        None \<Rightarrow> Some (BD_ERROR_NOT_INITIALIZED, st)
      | Some b \<Rightarrow>
          let start_page = u32 (u64 addr div pagesize st);
              end_page = u32 (u64 (u64 addr + u64 sz) div pagesize st);
              st1 = st\<lparr>pagebuffer := Some (memset b 0xff (size_t (pagesize st)))\<rparr>
          in (case erase_loop st1 (size_t start_page) end_page of
                None \<Rightarrow> None
              | Some (r, st2) \<Rightarrow>
                  if r \<noteq> 0 then Some (r, st2)
                  else Some (BD_ERROR_OK,
                             if last_page st2 \<ge> start_page \<and> last_page st2 \<le> end_page
                             then st2\<lparr>last_page := 0xffffffff\<rparr> else st2)))"

section \<open>Vocabulary of the properties\<close>

text \<open>
  The loops divide by \<open>pagesize\<close> and keep the chunk length in 32 bits: they are
  defined, and make progress, for a page size that is positive and fits 32 bits.
\<close>

definition geom_ok :: "AT45BlockDevice \<Rightarrow> bool" where
  "geom_ok st = (0 < pagesize st \<and> pagesize st < 2 ^ 32)"

text \<open>
  An initialised translator over a well-formed device: the page buffer is allocated
  and one page long, every flash page is one page long, and the device is smaller
  than 2 GiB (every AT45 part is, by orders of magnitude), so that no address or
  page index of an in-bounds request wraps around.
\<close>

definition well_formed :: "AT45BlockDevice \<Rightarrow> bool" where
  "well_formed st = (0 < pagesize st \<and> pagesize st < 2 ^ 32 \<and> totalsize st < 2 ^ 31 \<and>
            (\<exists>b. pagebuffer st = Some b \<and> length b = pagesize st) \<and>
            (\<forall>p. length (flash (at45 st) p) = pagesize st))"

text \<open>A fault-free storage primitive: every primitive call from now on returns 0.\<close>

definition fault_free :: "AT45 \<Rightarrow> bool" where
  "fault_free chip = (\<forall>n \<ge> length (calls chip). faults chip n = 0)"

text \<open>The primitive calls issued between two states of the chip.\<close>

definition new_calls :: "AT45 \<Rightarrow> AT45 \<Rightarrow> call list" where
  "new_calls chip chip' = drop (length (calls chip)) (calls chip')"

text \<open>
  Error propagation between two states of the chip, for an operation that returned
  \<open>r\<close>: the operation only appended calls to the log, and a primitive call of the
  operation that returned a nonzero code is the last call the operation issued, its
  code being \<open>r\<close>. (The n-th call of the log returns \<open>faults chip n\<close>.)
\<close>

definition propagates :: "AT45 \<Rightarrow> AT45 \<Rightarrow> int \<Rightarrow> bool" where
  "propagates chip chip' r =
     (faults chip' = faults chip \<and>
      calls chip' = calls chip @ new_calls chip chip' \<and>
      (\<forall>i \<in> {length (calls chip) ..< length (calls chip')}.
         faults chip i \<noteq> 0 \<longrightarrow> Suc i = length (calls chip') \<and> r = faults chip i))"

text \<open>
  The chunk of the specification: the number of bytes an iteration at \<open>addr\<close>
  moves when \<open>bl\<close> bytes are left, \<open>min (page_size - offset) bytes_remaining\<close>.
\<close>

definition chunk :: "nat \<Rightarrow> nat \<Rightarrow> nat \<Rightarrow> nat" where
  "chunk ps addr bl = min (ps - addr mod ps) bl"

text \<open>
  The pages a byte range overlaps, in ascending order: \<open>\<lfloor>addr / ps\<rfloor>\<close> to
  \<open>\<lfloor>(addr + bl - 1) / ps\<rfloor>\<close>; none for an empty range.
\<close>

definition pages_of :: "nat \<Rightarrow> nat \<Rightarrow> nat \<Rightarrow> nat list" where
  "pages_of ps addr bl = (if bl = 0 then [] else [addr div ps ..< Suc ((addr + bl - 1) div ps)])"

text \<open>
  The contents the translator works on for page \<open>p\<close>: the page buffer when \<open>p\<close> is
  the page \<open>last_page\<close> names, the flash page otherwise (after a load).
\<close>

definition page_view :: "AT45BlockDevice \<Rightarrow> nat \<Rightarrow> byte list" where
  "page_view st p = (if last_page st = p then pb st else flash (at45 st) p)"

text \<open>A primitive call without its data: a load or a store of a page.\<close>

datatype access = Load nat | Store nat

fun access_of :: "call \<Rightarrow> access" where
  "access_of (ReadPage p) = Load p"
| "access_of (WritePage p b) = Store p"

text \<open>
  A request to \<open>read\<close> or \<open>program\<close>: the caller's buffer, the address and the
  size. \<open>perform\<close> runs it and keeps the return code and the device.
\<close>

datatype request = Read "byte list" nat nat | Program "byte list" nat nat

fun req_buffer :: "request \<Rightarrow> byte list" where
  "req_buffer (Read b a s) = b"
| "req_buffer (Program b a s) = b"

fun req_addr :: "request \<Rightarrow> nat" where
  "req_addr (Read b a s) = a"
| "req_addr (Program b a s) = a"

fun req_size :: "request \<Rightarrow> nat" where
  "req_size (Read b a s) = s"
| "req_size (Program b a s) = s"

fun perform :: "AT45BlockDevice \<Rightarrow> request \<Rightarrow> (int \<times> AT45BlockDevice) option" where
  "perform st (Read b a s) = map_option (\<lambda>(r, out, st'). (r, st')) (read st b a s)"
| "perform st (Program b a s) = program st b a s"

text \<open>
  An in-bounds request: the byte range ends within the device, and the caller's
  buffer holds as many bytes as the request moves.
\<close>

definition in_bounds :: "AT45BlockDevice \<Rightarrow> request \<Rightarrow> bool" where
  "in_bounds st req =
     (req_addr req + req_size req \<le> totalsize st \<and> req_size req \<le> length (req_buffer req))"

text \<open>A non-empty byte range that lies within the single page \<open>p\<close>.\<close>

definition single_page :: "nat \<Rightarrow> nat \<Rightarrow> request \<Rightarrow> bool" where
  "single_page ps p req =
     (0 < req_size req \<and> req_addr req div ps = p \<and>
      (req_addr req + req_size req - 1) div ps = p)"

text \<open>
  The primitive calls a request is expected to issue, page by page in ascending
  order: a load for a \<open>read\<close>, a load and then a store for a \<open>program\<close>; the very
  first load is left out when the first page is the one \<open>last_page\<close> names.
\<close>

fun page_accesses :: "request \<Rightarrow> nat \<Rightarrow> access list" where
  "page_accesses (Read b a s) p = [Load p]"
| "page_accesses (Program b a s) p = [Load p, Store p]"

definition expected_accesses :: "nat \<Rightarrow> nat \<Rightarrow> request \<Rightarrow> access list" where
  "expected_accesses ps lp req =
     (let xs = concat (map (page_accesses req) (pages_of ps (req_addr req) (req_size req)))
      in if lp = req_addr req div ps then tl xs else xs)"

text \<open>The on-hardware value of the logical byte at address \<open>a\<close>.\<close>

definition hw :: "AT45BlockDevice \<Rightarrow> nat \<Rightarrow> byte" where
  "hw st a = flash (at45 st) (a div pagesize st) ! (a mod pagesize st)"

text \<open>
  The cache-validity invariant of the specification: \<open>last_page\<close> is the sentinel
  (no page is cached), or the page buffer holds the on-hardware contents of that page.
\<close>

definition cache_valid :: "AT45BlockDevice \<Rightarrow> bool" where
  "cache_valid st =
     (last_page st = 0xffffffff \<or> pagebuffer st = Some (flash (at45 st) (last_page st)))"

subsection \<open>Example devices\<close>

text \<open>A chip of four pages of four bytes, all zero, whose primitive calls never fail.\<close>

definition chip0 :: AT45 where
  "chip0 = \<lparr>chip_pagesize = 4, chip_pages = 4, flash = (\<lambda>_. [0, 0, 0, 0]),
            faults = (\<lambda>_. 0), calls = []\<rparr>"

text \<open>The same chip, whose second primitive call fails with code 5.\<close>

definition chip1 :: AT45 where
  "chip1 = chip0\<lparr>faults := (\<lambda>n. if n = 1 then 5 else 0)\<rparr>"

text \<open>The same chip, whose first primitive call fails with code 5.\<close>

definition chip2 :: AT45 where
  "chip2 = chip0\<lparr>faults := (\<lambda>n. if n = 0 then 5 else 0)\<rparr>"

text \<open>
  Translators over these chips, constructed in zeroed storage and initialised with
  a successful allocation.
\<close>

definition dev0 :: AT45BlockDevice where
  "dev0 = snd (init (AT45BlockDevice chip0 None) True)"

definition dev1 :: AT45BlockDevice where
  "dev1 = snd (init (AT45BlockDevice chip1 None) True)"

definition dev2 :: AT45BlockDevice where
  "dev2 = snd (init (AT45BlockDevice chip2 None) True)"

section \<open>Evaluation and basic facts\<close>

lemma replicate_numeral: "replicate (numeral k) x = x # replicate (pred_numeral k) x"
  by (simp add: numeral_eq_Suc)

lemmas eval_defs =
  chip0_def chip1_def chip2_def dev0_def dev1_def dev2_def init_def AT45BlockDevice_def
  program_def program_step_def read_def read_step_def erase_def
  read_page_def write_page_def pb_def memcpy_def memset_def
  u32_def u64_def size_t_def BD_ERROR_OK_def BD_ERROR_NO_MEMORY_def
  BD_ERROR_NOT_INITIALIZED_def Let_def replicate_numeral

lemma u32_id: "n < 2 ^ 32 \<Longrightarrow> u32 n = n"
  by (simp add: u32_def)

lemma u64_id: "n < 2 ^ 64 \<Longrightarrow> u64 n = n"
  by (simp add: u64_def)

lemma size_t_id: "n < 2 ^ 32 \<Longrightarrow> size_t n = n"
  by (simp add: size_t_def)

lemma wf_geom_ok: "well_formed st \<Longrightarrow> geom_ok st"
  by (simp add: well_formed_def geom_ok_def)

lemma dev0_wf: "well_formed dev0"
  by (simp add: well_formed_def eval_defs)

lemma dev1_wf: "well_formed dev1"
  by (simp add: well_formed_def eval_defs)

text \<open>
  A translator constructed over a well-formed chip and initialised with a successful
  allocation is well-formed, whatever the storage of the object held.
\<close>

lemma init_wf:
  assumes "0 < chip_pagesize chip" "chip_pagesize chip * chip_pages chip < 2 ^ 31"
    and "0 < chip_pages chip"
    and "\<forall>p. length (flash chip p) = chip_pagesize chip"
  shows "well_formed (snd (init (AT45BlockDevice chip junk) True))"
proof -
  have "chip_pagesize chip \<le> chip_pagesize chip * chip_pages chip"
    using assms(3) by simp
  then have ps: "chip_pagesize chip < 2 ^ 31" using assms(2) by linarith
  have pg: "chip_pages chip < 2 ^ 31"
  proof -
    have "chip_pages chip \<le> chip_pagesize chip * chip_pages chip"
      using assms(1) by simp
    then show ?thesis using assms(2) by linarith
  qed
  have a: "u64 (chip_pagesize chip) = chip_pagesize chip" using ps by (intro u64_id) simp
  have b: "u64 (chip_pages chip) = chip_pages chip" using pg by (intro u64_id) simp
  have c: "u64 (chip_pagesize chip * chip_pages chip) = chip_pagesize chip * chip_pages chip"
    using assms(2) by (intro u64_id) simp
  have d: "size_t (chip_pagesize chip) = chip_pagesize chip" using ps by (intro size_t_id) simp
  show ?thesis
    using assms ps by (simp add: well_formed_def init_def AT45BlockDevice_def a b c d)
qed

section \<open>Operations of size zero\<close>

lemma read_loop_zero: "read_loop st buffer pos addr 0 = Some (BD_ERROR_OK, buffer, st)"
  by (subst read_loop.simps) simp

lemma program_loop_zero: "program_loop st buffer pos addr 0 = Some (BD_ERROR_OK, st)"
  by (subst program_loop.simps) simp

lemma erase_loop_done: "end_page < ix \<Longrightarrow> erase_loop st ix end_page = Some (0, st)"
  by (subst erase_loop.simps) simp

lemma erase_loop_one:
  assumes "ix < 2 ^ 32 - 1"
  shows "erase_loop st ix ix =
           (case write_page (at45 st) (pb st) ix of
              (r, chip) \<Rightarrow> Some (r, st\<lparr>at45 := chip\<rparr>))"
proof -
  have "size_t (ix + 1) = ix + 1" using assms by (intro size_t_id) simp
  then have "erase_loop (st\<lparr>at45 := chip\<rparr>) (size_t (ix + 1)) ix = Some (0, st\<lparr>at45 := chip\<rparr>)" for chip
    by (simp add: erase_loop_done)
  then show ?thesis
    by (subst erase_loop.simps) (auto split: prod.splits)
qed

lemma memset_whole: "length b = n \<Longrightarrow> memset b c n = replicate n c"
  by (simp add: memset_def)

lemma erase_zero:
  assumes "well_formed st" "addr < totalsize st"
  shows "\<exists>st'. erase st addr 0 = Some (faults (at45 st) (length (calls (at45 st))), st') \<and>
           calls (at45 st') = calls (at45 st) @
             [WritePage (addr div pagesize st) (replicate (pagesize st) 0xff)] \<and>
           flash (at45 st') =
             (if faults (at45 st) (length (calls (at45 st))) = 0
              then (flash (at45 st))(addr div pagesize st := replicate (pagesize st) 0xff)
              else flash (at45 st))"
proof -
  from assms(1) obtain b where b: "pagebuffer st = Some b" "length b = pagesize st"
    by (auto simp: well_formed_def)
  have lt: "addr < 2 ^ 31" using assms by (simp add: well_formed_def)
  then have a64: "u64 addr = addr" by (intro u64_id) simp
  have "addr div pagesize st \<le> addr" by simp
  then have pg: "addr div pagesize st < 2 ^ 31" using lt by linarith
  then have p32: "u32 (addr div pagesize st) = addr div pagesize st" by (intro u32_id) simp
  have ps: "size_t (pagesize st) = pagesize st" using assms(1) by (intro size_t_id) (simp add: well_formed_def)
  have pz: "size_t (addr div pagesize st) = addr div pagesize st" using pg by (intro size_t_id) simp
  have z: "u64 0 = 0" by (simp add: u64_def)
  have one: "addr div pagesize st < 2 ^ 32 - 1" using pg by simp
  show ?thesis
    using b
    by (simp add: erase_def a64 z p32 ps pz Let_def memset_whole erase_loop_one[OF one]
        write_page_def pb_def BD_ERROR_OK_def)
qed

section \<open>The guard on the page buffer\<close>

lemma guard_null:
  assumes "pagebuffer st = None"
  shows "read st out addr sz = Some (BD_ERROR_NOT_INITIALIZED, out, st)"
    and "program st buf addr sz = Some (BD_ERROR_NOT_INITIALIZED, st)"
    and "erase st addr sz = Some (BD_ERROR_NOT_INITIALIZED, st)"
  using assms by (simp_all add: read_def program_def erase_def)

text \<open>
  After \<open>init\<close> has failed with \<open>BD_ERROR_NO_MEMORY\<close> the pointer is null, and the three
  operations return \<open>BD_ERROR_NOT_INITIALIZED\<close> without touching the device.
\<close>

lemma guard_after_failed_init:
  assumes "init st False = (r, st')"
  shows "r = BD_ERROR_NO_MEMORY"
    and "read st' out addr sz = Some (BD_ERROR_NOT_INITIALIZED, out, st')"
    and "program st' buf addr sz = Some (BD_ERROR_NOT_INITIALIZED, st')"
    and "erase st' addr sz = Some (BD_ERROR_NOT_INITIALIZED, st')"
proof -
  from assms have n: "pagebuffer st' = None" and r: "r = BD_ERROR_NO_MEMORY"
    by (auto simp: init_def)
  show "r = BD_ERROR_NO_MEMORY" by (rule r)
  show "read st' out addr sz = Some (BD_ERROR_NOT_INITIALIZED, out, st')"
    by (rule guard_null(1)[OF n])
  show "program st' buf addr sz = Some (BD_ERROR_NOT_INITIALIZED, st')"
    by (rule guard_null(2)[OF n])
  show "erase st' addr sz = Some (BD_ERROR_NOT_INITIALIZED, st')"
    by (rule guard_null(3)[OF n])
qed

text \<open>
  C5 (uninitialized guard). The claim: \<open>read\<close>, \<open>program\<close> and \<open>erase\<close> called before
  a successful \<open>init\<close> return \<open>BD_ERROR_NOT_INITIALIZED\<close> and issue no primitive call.
  The guard tests \<open>pagebuffer\<close>, which the constructor never assigns. For a translator
  constructed in storage that held a non-null value there, and never initialised,
  \<open>read\<close> of one byte at address 0 passes the guard, issues \<open>read_page\<close> for page 0 and
  returns \<open>BD_ERROR_OK\<close>.
\<close>

theorem uninitialized_guard_missed:
  "map_option (\<lambda>(r, out, st). (r, out, calls (at45 st)))
     (read (AT45BlockDevice chip0 (Some [7, 7, 7, 7])) [9] 0 1)
   = Some (BD_ERROR_OK, [0], [ReadPage 0])"
  by (simp add: eval_defs read_loop.simps)

section \<open>The page buffer after erase\<close>

text \<open>
  C1 (cache-validity invariant). The claim: whenever \<open>last_page\<close> holds a page index,
  the page buffer equals the on-hardware contents of that page, in particular after
  every successful \<open>read\<close>, \<open>program\<close> and \<open>erase\<close>. On the four-by-four device,
  \<open>program\<close> of page 1 followed by \<open>erase\<close> of one byte at address 0 both succeed;
  \<open>erase\<close> fills the page buffer with \<open>0xff\<close> and keeps \<open>last_page = 1\<close>, because page 1
  is outside the erased range. The buffer then differs from page 1 on the hardware,
  and the following \<open>read\<close> of page 1 returns the \<open>0xff\<close> bytes without a load.
\<close>

theorem erase_breaks_cache_validity:
  "Option.bind (program dev0 [1, 2, 3, 4] 4 4) (\<lambda>(r1, st1).
     Option.bind (erase st1 0 1) (\<lambda>(r2, st2).
     Option.bind (read st2 [0, 0, 0, 0] 4 4) (\<lambda>(r3, out, st3).
     Some (r1, r2, last_page st2, pagebuffer st2, flash (at45 st2) 1, cache_valid st2,
           r3, out, new_calls (at45 st2) (at45 st3)))))
   = Some (BD_ERROR_OK, BD_ERROR_OK, 1, Some [255, 255, 255, 255], [1, 2, 3, 4], False,
           BD_ERROR_OK, [255, 255, 255, 255], [])"
  by (simp add: eval_defs cache_valid_def new_calls_def
      program_loop.simps read_loop.simps erase_loop.simps)

text \<open>
  C3 (read-modify-write isolation). The claim: after a successful \<open>program\<close> the bytes
  of the touched pages outside the written range keep their on-hardware value. In
  the state reached above (\<open>program\<close> of page 1, \<open>erase\<close> at address 0), \<open>program\<close> of
  the single byte 9 at address 4 succeeds and leaves page 1 as \<open>[9, 0xff, 0xff, 0xff]\<close>
  on the hardware, where bytes 5 to 7 held 2, 3, 4 before the call.
\<close>

theorem program_after_erase_loses_page:
  "Option.bind (program dev0 [1, 2, 3, 4] 4 4) (\<lambda>(r1, st1).
     Option.bind (erase st1 0 1) (\<lambda>(r2, st2).
     Option.bind (program st2 [9] 4 1) (\<lambda>(r3, st3).
     Some (r1, r2, flash (at45 st2) 1, r3, flash (at45 st3) 1,
           map (hw st2) [5, 6, 7], map (hw st3) [5, 6, 7]))))
   = Some (BD_ERROR_OK, BD_ERROR_OK, [1, 2, 3, 4], BD_ERROR_OK, [9, 255, 255, 255],
           [2, 3, 4], [255, 255, 255])"
  by (simp add: eval_defs hw_def program_loop.simps erase_loop.simps)

section \<open>Requests of size zero\<close>

text \<open>
  C9 (zero-size edge case). On an initialised translator \<open>read\<close> and \<open>program\<close> of size 0
  return \<open>BD_ERROR_OK\<close> and leave the whole state, the chip and its call log included,
  as it was. \<open>erase\<close> of size 0 at a valid address issues exactly one \<open>write_page\<close>, of an
  all-\<open>0xff\<close> page, for the page containing the address; it returns the code of that
  call, and the page is \<open>0xff\<close> on the hardware when the call succeeds.
\<close>

theorem zero_size_edge_case:
  assumes "well_formed st"
  shows "read st out addr 0 = Some (BD_ERROR_OK, out, st) \<and>
         program st buf addr 0 = Some (BD_ERROR_OK, st) \<and>
         (addr < totalsize st \<longrightarrow>
            (\<exists>st'. erase st addr 0 = Some (faults (at45 st) (length (calls (at45 st))), st') \<and>
               calls (at45 st') = calls (at45 st) @
                 [WritePage (addr div pagesize st) (replicate (pagesize st) 0xff)] \<and>
               flash (at45 st') =
                 (if faults (at45 st) (length (calls (at45 st))) = 0
                  then (flash (at45 st))(addr div pagesize st := replicate (pagesize st) 0xff)
                  else flash (at45 st))))"
proof -
  from assms obtain b where b: "pagebuffer st = Some b" by (auto simp: well_formed_def)
  have z: "size_t 0 = 0" by (simp add: size_t_def)
  have "read st out addr 0 = Some (BD_ERROR_OK, out, st)"
    using b by (simp add: read_def z read_loop_zero)
  moreover have "program st buf addr 0 = Some (BD_ERROR_OK, st)"
    using b by (simp add: program_def z program_loop_zero)
  ultimately show ?thesis using erase_zero[OF assms] by blast
qed

theorem zero_size_edge_case_witness:
  "well_formed dev0 \<and> 5 < totalsize dev0 \<and>
   read dev0 [7] 5 0 = Some (BD_ERROR_OK, [7], dev0) \<and>
   program dev0 [7] 5 0 = Some (BD_ERROR_OK, dev0) \<and>
   (\<exists>st'. erase dev0 5 0 = Some (0, st') \<and>
      calls (at45 st') = [WritePage 1 [255, 255, 255, 255]] \<and>
      flash (at45 st') 1 = [255, 255, 255, 255])"
proof -
  have t: "5 < totalsize dev0" by (simp add: eval_defs)
  have e: "\<And>n. faults (at45 dev0) n = 0" "calls (at45 dev0) = []"
    "5 div pagesize dev0 = 1" "replicate (pagesize dev0) (0xff :: byte) = [255, 255, 255, 255]"
    by (simp_all add: eval_defs)
  from zero_size_edge_case[OF dev0_wf, of "[7]" 5 "[7]"] t
  show ?thesis by (auto simp: e dev0_wf)
qed

section \<open>Error propagation\<close>

lemma new_calls_eq: "calls chip' = calls chip @ xs \<Longrightarrow> new_calls chip chip' = xs"
  by (simp add: new_calls_def)

lemma propagates_refl: "propagates chip chip r"
  by (simp add: propagates_def new_calls_def)

text \<open>Calls that all succeeded, followed by an operation that propagates.\<close>

lemma propagates_step:
  assumes "faults mid = faults chip" "calls mid = calls chip @ cs"
    and "\<forall>i \<in> {length (calls chip) ..< length (calls mid)}. faults chip i = 0"
    and "propagates mid chip' r"
  shows "propagates chip chip' r"
proof -
  from assms(4) have f: "faults chip' = faults mid"
    and c: "calls chip' = calls mid @ new_calls mid chip'"
    and p: "\<forall>i \<in> {length (calls mid) ..< length (calls chip')}.
              faults mid i \<noteq> 0 \<longrightarrow> Suc i = length (calls chip') \<and> r = faults mid i"
    by (simp_all add: propagates_def)
  have c': "calls chip' = calls chip @ (cs @ new_calls mid chip')"
    using c assms(2) by simp
  then have n: "new_calls chip chip' = cs @ new_calls mid chip'"
    by (rule new_calls_eq)
  have "\<forall>i \<in> {length (calls chip) ..< length (calls chip')}.
          faults chip i \<noteq> 0 \<longrightarrow> Suc i = length (calls chip') \<and> r = faults chip i"
  proof (intro ballI impI)
    fix i assume i: "i \<in> {length (calls chip) ..< length (calls chip')}" and nz: "faults chip i \<noteq> 0"
    have "\<not> i < length (calls mid)" using assms(3) i nz by auto
    then have "i \<in> {length (calls mid) ..< length (calls chip')}" using i by simp
    then show "Suc i = length (calls chip') \<and> r = faults chip i"
      using p nz assms(1) by simp
  qed
  then show ?thesis using f assms(1) c' n by (simp add: propagates_def)
qed

text \<open>A last call, whose code is returned.\<close>

lemma propagates_last:
  assumes "faults chip' = faults chip" "calls chip' = calls chip @ [c]"
    and "r = faults chip (length (calls chip))"
  shows "propagates chip chip' r"
  using assms by (auto simp: propagates_def new_calls_def)

lemma program_step_propagates:
  "program_step st buffer pos addr bl = Inl (r, st') \<Longrightarrow> propagates (at45 st) (at45 st') r"
  "program_step st buffer pos addr bl = Inr (st', pos', addr', bl') \<Longrightarrow>
     propagates (at45 st) (at45 st') 0 \<and>
     (\<forall>i \<in> {length (calls (at45 st)) ..< length (calls (at45 st'))}. faults (at45 st) i = 0)"
  by (auto simp: program_step_def read_page_def write_page_def Let_def propagates_def new_calls_def
      less_Suc_eq split: if_splits)


lemma propagates_zero_step:
  assumes "propagates chip mid 0"
    and "\<forall>i \<in> {length (calls chip) ..< length (calls mid)}. faults chip i = 0"
    and "propagates mid chip' r"
  shows "propagates chip chip' r"
  using assms(1) by (intro propagates_step[OF _ _ assms(2) assms(3), of "new_calls chip mid"]) (simp_all add: propagates_def)

lemma erase_loop_propagates:
  assumes "erase_loop st ix end_page = Some res"
  shows "propagates (at45 st) (at45 (snd res)) (fst res)"
proof (rule erase_loop.raw_induct[where P = "\<lambda>s i e y. propagates (at45 s) (at45 (snd y)) (fst y)",
      OF _ assms])
  fix loop s i e y
  assume 1: "\<And>s i e y. loop s i e = Some y \<Longrightarrow> propagates (at45 s) (at45 (snd y)) (fst y)"
    "(if i \<le> e then case write_page (at45 s) (pb s) i of
        (r, chip) \<Rightarrow> if r \<noteq> 0 then Some (r, s\<lparr>at45 := chip\<rparr>)
                     else loop (s\<lparr>at45 := chip\<rparr>) (size_t (i + 1)) e
      else Some (0, s)) = Some y"
  show "propagates (at45 s) (at45 (snd y)) (fst y)"
  proof (cases "i \<le> e")
    case False
    with 1(2) have "y = (0, s)" by auto
    then show ?thesis by (simp add: propagates_refl)
  next
    case True
    obtain r chip where w: "write_page (at45 s) (pb s) i = (r, chip)" by (cases "write_page (at45 s) (pb s) i")
    then have f: "faults chip = faults (at45 s)"
      and c: "calls chip = calls (at45 s) @ [WritePage i (pb s)]"
      and r: "r = faults (at45 s) (length (calls (at45 s)))"
      by (auto simp: write_page_def Let_def)
    show ?thesis
    proof (cases "r = 0")
      case False
      with True 1(2) w have "y = (r, s\<lparr>at45 := chip\<rparr>)" by simp
      then show ?thesis using propagates_last[OF f c r] by simp
    next
      case z: True
      with True 1(2) w have "loop (s\<lparr>at45 := chip\<rparr>) (size_t (i + 1)) e = Some y" by simp
      from 1(1)[OF this] have p: "propagates chip (at45 (snd y)) (fst y)" by simp
      have q: "\<forall>i \<in> {length (calls (at45 s)) ..< length (calls chip)}. faults (at45 s) i = 0"
        using c r z by (simp add: less_Suc_eq)
      show ?thesis by (rule propagates_step[OF f c q p])
    qed
  qed
qed

lemma program_loop_propagates:
  assumes "program_loop st buffer pos addr bl = Some res"
  shows "propagates (at45 st) (at45 (snd res)) (fst res)"
proof (rule program_loop.raw_induct[where P = "\<lambda>s b p a n y. propagates (at45 s) (at45 (snd y)) (fst y)",
      OF _ assms])
  fix loop s b p a n y
  assume 1: "\<And>s b p a n y. loop s b p a n = Some y \<Longrightarrow> propagates (at45 s) (at45 (snd y)) (fst y)"
    "(if 0 < n then case program_step s b p a n of Inl res \<Rightarrow> Some res
        | Inr (st', pos', addr', bytes_left') \<Rightarrow> loop st' b pos' addr' bytes_left'
      else Some (BD_ERROR_OK, s)) = Some y"
  show "propagates (at45 s) (at45 (snd y)) (fst y)"
  proof (cases "0 < n")
    case False
    with 1(2) have "y = (BD_ERROR_OK, s)" by auto
    then show ?thesis by (simp add: propagates_refl)
  next
    case True
    show ?thesis
    proof (cases "program_step s b p a n")
      case (Inl x)
      with True 1(2) have "x = y" by simp
      with Inl program_step_propagates(1)[of s b p a n "fst y" "snd y"]
      show ?thesis by simp
    next
      case (Inr z)
      obtain s1 p1 a1 n1 where z: "z = (s1, p1, a1, n1)" by (cases z) auto
      with True 1(2) Inr have "loop s1 b p1 a1 n1 = Some y" by simp
      from 1(1)[OF this] have p: "propagates (at45 s1) (at45 (snd y)) (fst y)" .
      from program_step_propagates(2)[of s b p a n s1 p1 a1 n1] Inr z
      have q: "propagates (at45 s) (at45 s1) 0"
        "\<forall>i \<in> {length (calls (at45 s)) ..< length (calls (at45 s1))}. faults (at45 s) i = 0"
        by simp_all
      show ?thesis by (rule propagates_zero_step[OF q p])
    qed
  qed
qed

lemma read_step_propagates:
  "read_step st buffer pos addr bl = Inl (r, out', st') \<Longrightarrow> propagates (at45 st) (at45 st') r"
  "read_step st buffer pos addr bl = Inr (st', buffer', pos', addr', bl') \<Longrightarrow>
     propagates (at45 st) (at45 st') 0 \<and>
     (\<forall>i \<in> {length (calls (at45 st)) ..< length (calls (at45 st'))}. faults (at45 st) i = 0)"
  by (auto simp: read_step_def read_page_def Let_def propagates_def new_calls_def
      less_Suc_eq split: if_splits)

lemma read_loop_propagates:
  assumes "read_loop st buffer pos addr bl = Some res"
  shows "propagates (at45 st) (at45 (snd (snd res))) (fst res)"
proof (rule read_loop.raw_induct[where P = "\<lambda>s b p a n y. propagates (at45 s) (at45 (snd (snd y))) (fst y)",
      OF _ assms])
  fix loop s b p a n y
  assume 1: "\<And>s b p a n y. loop s b p a n = Some y \<Longrightarrow> propagates (at45 s) (at45 (snd (snd y))) (fst y)"
    "(if 0 < n then case read_step s b p a n of Inl res \<Rightarrow> Some res
        | Inr (st', buffer', pos', addr', bytes_left') \<Rightarrow> loop st' buffer' pos' addr' bytes_left'
      else Some (BD_ERROR_OK, b, s)) = Some y"
  show "propagates (at45 s) (at45 (snd (snd y))) (fst y)"
  proof (cases "0 < n")
    case False
    with 1(2) have "y = (BD_ERROR_OK, b, s)" by auto
    then show ?thesis by (simp add: propagates_refl)
  next
    case True
    show ?thesis
    proof (cases "read_step s b p a n")
      case (Inl x)
      with True 1(2) have "x = y" by simp
      with Inl read_step_propagates(1)[of s b p a n "fst y" "fst (snd y)" "snd (snd y)"]
      show ?thesis by simp
    next
      case (Inr z)
      obtain s1 b1 p1 a1 n1 where z: "z = (s1, b1, p1, a1, n1)" by (cases z) auto
      with True 1(2) Inr have "loop s1 b1 p1 a1 n1 = Some y" by simp
      from 1(1)[OF this] have p: "propagates (at45 s1) (at45 (snd (snd y))) (fst y)" .
      from read_step_propagates(2)[of s b p a n s1 b1 p1 a1 n1] Inr z
      have q: "propagates (at45 s) (at45 s1) 0"
        "\<forall>i \<in> {length (calls (at45 s)) ..< length (calls (at45 s1))}. faults (at45 s) i = 0"
        by simp_all
      show ?thesis by (rule propagates_zero_step[OF q p])
    qed
  qed
qed



section \<open>Termination of the loops\<close>

lemma step_len_pos:
  assumes "geom_ok st" "0 < bl"
  shows "0 < (if u32 (pagesize st - u32 (addr mod pagesize st)) > bl then bl
              else u32 (pagesize st - u32 (addr mod pagesize st)))"
proof -
  have m: "addr mod pagesize st < pagesize st" using assms by (simp add: geom_ok_def)
  then have "addr mod pagesize st < 2 ^ 32" using assms by (simp add: geom_ok_def)
  then have "u32 (addr mod pagesize st) = addr mod pagesize st" by (rule u32_id)
  moreover have "pagesize st - addr mod pagesize st < 2 ^ 32"
    using assms by (auto simp: geom_ok_def intro: less_imp_diff_less)
  then have "u32 (pagesize st - addr mod pagesize st) = pagesize st - addr mod pagesize st"
    by (rule u32_id)
  ultimately show ?thesis using m assms by simp
qed

lemma read_step_shape:
  assumes "geom_ok st" "0 < bl"
  shows "(\<exists>r st'. read_step st buffer pos addr bl = Inl (r, buffer, st')
            \<and> flash (at45 st') = flash (at45 st)
            \<and> calls (at45 st') = calls (at45 st) @ [ReadPage (u32 (addr div pagesize st))])
       \<or> (\<exists>st' buffer' pos' addr' bl'.
            read_step st buffer pos addr bl = Inr (st', buffer', pos', addr', bl')
            \<and> bl' < bl \<and> pagesize st' = pagesize st
            \<and> flash (at45 st') = flash (at45 st)
            \<and> calls (at45 st') = calls (at45 st) @
                 map ReadPage (if last_page st \<noteq> u32 (addr div pagesize st)
                               then [u32 (addr div pagesize st)] else []))"
  using step_len_pos[OF assms, of addr]
  by (auto simp: read_step_def read_page_def Let_def split: if_splits)

lemma read_loop_flash:
  "geom_ok st \<Longrightarrow>
   \<exists>r out' st'. read_loop st buffer pos addr bl = Some (r, out', st')
      \<and> flash (at45 st') = flash (at45 st)
      \<and> (\<exists>ps. calls (at45 st') = calls (at45 st) @ map ReadPage ps)"
proof (induction bl arbitrary: st buffer pos addr rule: less_induct)
  case (less bl)
  show ?case
  proof (cases "bl = 0")
    case True
    then show ?thesis by (subst read_loop.simps) simp
  next
    case False
    then have pos: "0 < bl" by simp
    from read_step_shape[OF less.prems pos, of buffer pos addr]
    consider (fail) r st' where "read_step st buffer pos addr bl = Inl (r, buffer, st')"
        "flash (at45 st') = flash (at45 st)"
        "calls (at45 st') = calls (at45 st) @ [ReadPage (u32 (addr div pagesize st))]"
      | (ok) st' buffer' pos' addr' bl' qs where
        "read_step st buffer pos addr bl = Inr (st', buffer', pos', addr', bl')"
        "bl' < bl" "flash (at45 st') = flash (at45 st)"
        "calls (at45 st') = calls (at45 st) @ map ReadPage qs"
        "pagesize st' = pagesize st"
      by blast
    then show ?thesis
    proof cases
      case fail
      have "read_loop st buffer pos addr bl = Some (r, buffer, st')"
        using pos fail(1) by (subst read_loop.simps) simp
      moreover have "calls (at45 st') = calls (at45 st) @ map ReadPage [u32 (addr div pagesize st)]"
        using fail(3) by simp
      ultimately show ?thesis using fail(2) by blast
    next
      case ok
      have g': "geom_ok st'" using less.prems ok(5) by (simp add: geom_ok_def)
      from less.IH[OF ok(2) g', of buffer' pos' addr']
      obtain r out' st'' ps where
        l: "read_loop st' buffer' pos' addr' bl' = Some (r, out', st'')"
        and f': "flash (at45 st'') = flash (at45 st')"
        and c': "calls (at45 st'') = calls (at45 st') @ map ReadPage ps"
        by blast
      have e: "read_loop st buffer pos addr bl = Some (r, out', st'')"
        using pos ok(1) l by (subst read_loop.simps) simp
      have "calls (at45 st'') = calls (at45 st) @ map ReadPage (qs @ ps)"
        using c' ok(4) by simp
      then show ?thesis using e f' ok(3) by metis
    qed
  qed
qed

lemma program_step_shape:
  assumes "geom_ok st" "0 < bl"
  shows "(\<exists>res. program_step st buffer pos addr bl = Inl res)
       \<or> (\<exists>st' pos' addr' bl'.
            program_step st buffer pos addr bl = Inr (st', pos', addr', bl')
            \<and> bl' < bl \<and> pagesize st' = pagesize st)"
  using step_len_pos[OF assms, of addr]
  by (auto simp: program_step_def read_page_def write_page_def Let_def split: if_splits)

lemma program_loop_total:
  "geom_ok st \<Longrightarrow> \<exists>res. program_loop st buffer pos addr bl = Some res"
proof (induction bl arbitrary: st pos addr rule: less_induct)
  case (less bl)
  show ?case
  proof (cases "bl = 0")
    case True
    then show ?thesis by (subst program_loop.simps) simp
  next
    case False
    then have pos: "0 < bl" by simp
    from program_step_shape[OF less.prems pos, of buffer pos addr]
    consider (fail) res where "program_step st buffer pos addr bl = Inl res"
      | (ok) st' pos' addr' bl' where
        "program_step st buffer pos addr bl = Inr (st', pos', addr', bl')"
        "bl' < bl" "pagesize st' = pagesize st"
      by blast
    then show ?thesis
    proof cases
      case fail
      then show ?thesis using pos by (subst program_loop.simps) simp
    next
      case ok
      have g': "geom_ok st'" using less.prems ok(3) by (simp add: geom_ok_def)
      from less.IH[OF ok(2) g', of pos' addr']
      obtain res where "program_loop st' buffer pos' addr' bl' = Some res" by blast
      then show ?thesis using pos ok(1) by (subst program_loop.simps) simp
    qed
  qed
qed

lemma erase_loop_fault_returns:
  assumes "length (calls (at45 st)) \<le> n" "faults (at45 st) n \<noteq> 0"
  shows "\<exists>res. erase_loop st ix e = Some res"
  using assms
proof (induction "n - length (calls (at45 st))" arbitrary: st ix rule: less_induct)
  case less
  show ?case
  proof (cases "ix \<le> e")
    case False
    then show ?thesis by (subst erase_loop.simps) simp
  next
    case True
    obtain r chip where w: "write_page (at45 st) (pb st) ix = (r, chip)"
      by (cases "write_page (at45 st) (pb st) ix")
    then have f: "faults chip = faults (at45 st)"
      and c: "calls chip = calls (at45 st) @ [WritePage ix (pb st)]"
      and r: "r = faults (at45 st) (length (calls (at45 st)))"
      by (auto simp: write_page_def Let_def)
    show ?thesis
    proof (cases "r = 0")
      case False
      then show ?thesis using True w by (subst erase_loop.simps) simp
    next
      case z: True
      have "n \<noteq> length (calls (at45 st))" using less.prems(2) r z by auto
      then have lt: "length (calls (at45 st)) < n" using less.prems(1) by simp
      let ?st = "st\<lparr>at45 := chip\<rparr>"
      have "n - length (calls (at45 ?st)) < n - length (calls (at45 st))"
        using lt c by simp
      moreover have "length (calls (at45 ?st)) \<le> n" using lt c by simp
      moreover have "faults (at45 ?st) n \<noteq> 0" using less.prems(2) f by simp
      ultimately obtain res where "erase_loop ?st (size_t (ix + 1)) e = Some res"
        using less.hyps by blast
      then show ?thesis using True w z by (subst erase_loop.simps) simp
    qed
  qed
qed

lemma dev1_geom_ok: "geom_ok dev1"
  by (simp add: geom_ok_def eval_defs)

text \<open>
  C10 (read leaves flash unchanged). For a page size that is positive and fits 32
  bits, every \<open>read\<close> returns, with whatever code; the flash holds after the call
  what it held before, and the primitive calls the \<open>read\<close> issued are all \<open>read_page\<close>
  calls.
\<close>

theorem read_leaves_flash_unchanged:
  assumes "geom_ok st"
  shows "\<exists>r out' st'. read st out addr sz = Some (r, out', st')
      \<and> flash (at45 st') = flash (at45 st)
      \<and> (\<exists>ps. calls (at45 st') = calls (at45 st) @ map ReadPage ps)"
proof (cases "pagebuffer st")
  case None
  then have "read st out addr sz = Some (BD_ERROR_NOT_INITIALIZED, out, st)"
    by (simp add: read_def)
  moreover have "calls (at45 st) = calls (at45 st) @ map ReadPage []" by simp
  ultimately show ?thesis by blast
next
  case (Some b)
  then have "read st out addr sz = read_loop st out 0 (u64 addr) (size_t sz)"
    by (simp add: read_def)
  then show ?thesis using read_loop_flash[OF assms, of out 0 "u64 addr" "size_t sz"] by simp
qed

theorem read_leaves_flash_unchanged_witness:
  "geom_ok dev1 \<and>
   (\<exists>out' st'. read dev1 [0, 0, 0, 0, 0, 0, 0, 0] 0 8 = Some (5, out', st')
      \<and> flash (at45 st') = flash (at45 dev1)
      \<and> calls (at45 st') = calls (at45 dev1) @ map ReadPage [0, 1])"
proof -
  have e: "\<exists>out' st'. read dev1 [0, 0, 0, 0, 0, 0, 0, 0] 0 8 = Some (5, out', st')
      \<and> calls (at45 st') = calls (at45 dev1) @ map ReadPage [0, 1]"
    by (simp add: eval_defs read_loop.simps)
  from read_leaves_flash_unchanged[OF dev1_geom_ok, of "[0, 0, 0, 0, 0, 0, 0, 0]" 0 8] e
  show ?thesis using dev1_geom_ok by auto
qed

text \<open>
  C7 (error propagation). For \<open>read\<close>, \<open>program\<close> and \<open>erase\<close>: a primitive call of
  the operation that returns a nonzero code is the last primitive call the operation
  issues, and the operation returns that code. \<open>read\<close> and \<open>program\<close> return for
  every request (on a page size that is positive and fits 32 bits); \<open>erase\<close> returns
  whenever some primitive call from now on is going to fail.
\<close>

theorem error_propagation:
  "(geom_ok st \<longrightarrow>
      (\<exists>r out' st'. read st out addr sz = Some (r, out', st') \<and>
         propagates (at45 st) (at45 st') r)) \<and>
   (geom_ok st \<longrightarrow>
      (\<exists>r st'. program st buf addr sz = Some (r, st') \<and>
         propagates (at45 st) (at45 st') r)) \<and>
   (\<not> fault_free (at45 st) \<longrightarrow> (\<exists>r st'. erase st addr sz = Some (r, st'))) \<and>
   (\<forall>r st'. erase st addr sz = Some (r, st') \<longrightarrow> propagates (at45 st) (at45 st') r)"
proof (intro conjI impI allI)
  assume g: "geom_ok st"
  show "\<exists>r out' st'. read st out addr sz = Some (r, out', st') \<and> propagates (at45 st) (at45 st') r"
  proof (cases "pagebuffer st")
    case None
    then show ?thesis by (simp add: read_def propagates_refl)
  next
    case (Some b)
    from read_loop_flash[OF g, of out 0 "u64 addr" "size_t sz"]
    obtain r out' st' where l: "read_loop st out 0 (u64 addr) (size_t sz) = Some (r, out', st')"
      by blast
    from read_loop_propagates[OF l] have "propagates (at45 st) (at45 st') r" by simp
    then show ?thesis using l Some by (simp add: read_def)
  qed
next
  assume g: "geom_ok st"
  show "\<exists>r st'. program st buf addr sz = Some (r, st') \<and> propagates (at45 st) (at45 st') r"
  proof (cases "pagebuffer st")
    case None
    then show ?thesis by (simp add: program_def propagates_refl)
  next
    case (Some b)
    from program_loop_total[OF g, of buf 0 "u64 addr" "size_t sz"]
    obtain r st' where l: "program_loop st buf 0 (u64 addr) (size_t sz) = Some (r, st')"
      by force
    from program_loop_propagates[OF l] have "propagates (at45 st) (at45 st') r" by simp
    then show ?thesis using l Some by (simp add: program_def)
  qed
next
  assume "\<not> fault_free (at45 st)"
  then obtain n where n: "length (calls (at45 st)) \<le> n" "faults (at45 st) n \<noteq> 0"
    by (auto simp: fault_free_def)
  show "\<exists>r st'. erase st addr sz = Some (r, st')"
  proof (cases "pagebuffer st")
    case None
    then show ?thesis by (simp add: erase_def)
  next
    case (Some b)
    let ?st1 = "st\<lparr>pagebuffer := Some (memset b 0xff (size_t (pagesize st)))\<rparr>"
    have "length (calls (at45 ?st1)) \<le> n" "faults (at45 ?st1) n \<noteq> 0" using n by simp_all
    from erase_loop_fault_returns[OF this]
    obtain r st2 where
      "erase_loop ?st1 (size_t (u32 (u64 addr div pagesize st)))
         (u32 (u64 (u64 addr + u64 sz) div pagesize st)) = Some (r, st2)"
      by force
    then show ?thesis using Some by (simp add: erase_def Let_def)
  qed
next
  fix r st'
  assume e: "erase st addr sz = Some (r, st')"
  show "propagates (at45 st) (at45 st') r"
  proof (cases "pagebuffer st")
    case None
    with e show ?thesis by (auto simp: erase_def propagates_refl)
  next
    case (Some b)
    let ?st1 = "st\<lparr>pagebuffer := Some (memset b 0xff (size_t (pagesize st)))\<rparr>"
    from e Some obtain r2 st2 where
      l: "erase_loop ?st1 (size_t (u32 (u64 addr div pagesize st)))
         (u32 (u64 (u64 addr + u64 sz) div pagesize st)) = Some (r2, st2)"
      and res: "r = r2" "at45 st' = at45 st2"
      by (auto simp: erase_def Let_def BD_ERROR_OK_def split: option.splits if_splits)
    from erase_loop_propagates[OF l] show ?thesis using res by simp
  qed
qed

theorem error_propagation_witness:
  "geom_ok dev1 \<and> \<not> fault_free (at45 dev1) \<and> faults (at45 dev1) 1 = 5 \<and>
   (\<exists>out' st'. read dev1 [0, 0, 0, 0, 0, 0, 0, 0] 0 8 = Some (5, out', st') \<and>
      new_calls (at45 dev1) (at45 st') = [ReadPage 0, ReadPage 1]) \<and>
   (\<exists>st'. program dev1 [1, 2, 3, 4, 5, 6, 7, 8] 0 8 = Some (5, st') \<and>
      new_calls (at45 dev1) (at45 st') = [ReadPage 0, WritePage 0 [1, 2, 3, 4]]) \<and>
   (\<exists>st'. erase dev1 0 8 = Some (5, st') \<and>
      new_calls (at45 dev1) (at45 st') =
        [WritePage 0 [255, 255, 255, 255], WritePage 1 [255, 255, 255, 255]])"
proof -
  have f: "\<not> fault_free (at45 dev1)" "faults (at45 dev1) 1 = 5"
    by (auto simp: fault_free_def eval_defs)
  have r: "\<exists>out' st'. read dev1 [0, 0, 0, 0, 0, 0, 0, 0] 0 8 = Some (5, out', st') \<and>
      new_calls (at45 dev1) (at45 st') = [ReadPage 0, ReadPage 1]"
    by (simp add: eval_defs new_calls_def read_loop.simps)
  have p: "\<exists>st'. program dev1 [1, 2, 3, 4, 5, 6, 7, 8] 0 8 = Some (5, st') \<and>
      new_calls (at45 dev1) (at45 st') = [ReadPage 0, WritePage 0 [1, 2, 3, 4]]"
    by (simp add: eval_defs new_calls_def program_loop.simps)
  have e: "\<exists>st'. erase dev1 0 8 = Some (5, st') \<and>
      new_calls (at45 dev1) (at45 st') =
        [WritePage 0 [255, 255, 255, 255], WritePage 1 [255, 255, 255, 255]]"
    by (simp add: eval_defs new_calls_def erase_loop.simps)
  from error_propagation[of dev1 "[0, 0, 0, 0, 0, 0, 0, 0]" 0 8 "[1, 2, 3, 4, 5, 6, 7, 8]"]
  show ?thesis using dev1_geom_ok f r p e by simp
qed

section \<open>One iteration on an in-bounds request\<close>

lemma chunk_pos: "0 < ps \<Longrightarrow> 0 < bl \<Longrightarrow> 0 < chunk ps addr bl"
  by (simp add: chunk_def)

lemma chunk_le: "chunk ps addr bl \<le> bl" "chunk ps addr bl \<le> ps - addr mod ps"
  by (simp_all add: chunk_def)

lemma chunk_in_page: "0 < ps \<Longrightarrow> addr mod ps + chunk ps addr bl \<le> ps"
  using mod_less_divisor[of ps addr] by (auto simp: chunk_def min_def)

lemma length_memcpy:
  "d + n \<le> length dst \<Longrightarrow> s + n \<le> length src \<Longrightarrow> length (memcpy dst d src s n) = length dst"
  by (simp add: memcpy_def)

lemma nth_memcpy:
  assumes "d + n \<le> length dst" "s + n \<le> length src" "i < length dst"
  shows "memcpy dst d src s n ! i =
           (if d \<le> i \<and> i < d + n then src ! (s + (i - d)) else dst ! i)"
proof -
  have l1: "length (take d dst) = d" using assms by simp
  have l2: "length (take n (drop s src)) = n" using assms by simp
  consider (lo) "i < d" | (mid) "d \<le> i" "i < d + n" | (hi) "d + n \<le> i" by linarith
  then show ?thesis
  proof cases
    case lo
    then show ?thesis using l1 by (simp add: memcpy_def nth_append)
  next
    case mid
    then have k: "i - d < n" by simp
    have "memcpy dst d src s n ! i = (take n (drop s src) @ drop (d + n) dst) ! (i - d)"
      using mid l1 by (simp add: memcpy_def nth_append)
    also have "\<dots> = take n (drop s src) ! (i - d)" using k l2 by (simp add: nth_append)
    also have "\<dots> = src ! (s + (i - d))" using k assms(2) by simp
    finally show ?thesis using mid by simp
  next
    case hi
    then have k: "\<not> i - d < n" "\<not> i < d" by simp_all
    have "memcpy dst d src s n ! i = (take n (drop s src) @ drop (d + n) dst) ! (i - d)"
      using k l1 by (simp add: memcpy_def nth_append)
    also have "\<dots> = drop (d + n) dst ! (i - d - n)" using k l2 by (simp add: nth_append)
    also have "\<dots> = dst ! i" using hi assms by simp
    finally show ?thesis using hi by simp
  qed
qed

text \<open>The conversions of the loop body are the identity on an in-bounds request.\<close>

lemma step_conversions:
  assumes "well_formed st" "addr + bl \<le> totalsize st"
  shows "u32 (addr div pagesize st) = addr div pagesize st"
    and "u32 (addr mod pagesize st) = addr mod pagesize st"
    and "u32 (pagesize st - addr mod pagesize st) = pagesize st - addr mod pagesize st"
    and "(if bl < pagesize st - addr mod pagesize st then bl
          else pagesize st - addr mod pagesize st) = chunk (pagesize st) addr bl"
    and "u64 (addr + chunk (pagesize st) addr bl) = addr + chunk (pagesize st) addr bl"
proof -
  from assms have ps: "0 < pagesize st" "pagesize st < 2 ^ 32" and a: "addr + bl < 2 ^ 31"
    by (simp_all add: well_formed_def)
  have "addr div pagesize st \<le> addr" by simp
  then have "addr div pagesize st < 2 ^ 31" using a by linarith
  then show "u32 (addr div pagesize st) = addr div pagesize st" by (intro u32_id) simp
  have "addr mod pagesize st < pagesize st" using ps by simp
  then have "addr mod pagesize st < 2 ^ 32" using ps by linarith
  then show "u32 (addr mod pagesize st) = addr mod pagesize st" by (rule u32_id)
  have "pagesize st - addr mod pagesize st < 2 ^ 32" using ps by linarith
  then show "u32 (pagesize st - addr mod pagesize st) = pagesize st - addr mod pagesize st"
    by (rule u32_id)
  show "(if bl < pagesize st - addr mod pagesize st then bl
          else pagesize st - addr mod pagesize st) = chunk (pagesize st) addr bl"
    by (simp add: chunk_def)
  have "addr + chunk (pagesize st) addr bl \<le> addr + bl" using chunk_le(1) by simp
  then show "u64 (addr + chunk (pagesize st) addr bl) = addr + chunk (pagesize st) addr bl"
    using a by (intro u64_id) simp
qed

lemma wf_pb: "well_formed st \<Longrightarrow> pagebuffer st = Some (pb st) \<and> length (pb st) = pagesize st"
  by (auto simp: well_formed_def pb_def)

lemma length_page_view: "well_formed st \<Longrightarrow> length (page_view st p) = pagesize st"
  using wf_pb[of st] by (simp add: page_view_def well_formed_def)

lemma program_step_normal:
  assumes "well_formed st" "0 < bl" "addr + bl \<le> totalsize st" "pos + bl \<le> length buffer"
  shows "program_step st buffer pos addr bl = Inl (r, st') \<Longrightarrow> r \<noteq> 0"
    and "program_step st buffer pos addr bl = Inr (st1, pos1, addr1, bl1) \<Longrightarrow>
         pos1 = pos + chunk (pagesize st) addr bl \<and>
         addr1 = addr + chunk (pagesize st) addr bl \<and>
         bl1 = bl - chunk (pagesize st) addr bl \<and>
         pagesize st1 = pagesize st \<and> totalsize st1 = totalsize st \<and>
         last_page st1 = addr div pagesize st \<and>
         pagebuffer st1 = Some (memcpy (page_view st (addr div pagesize st))
                                  (addr mod pagesize st) buffer pos (chunk (pagesize st) addr bl)) \<and>
         flash (at45 st1) = (flash (at45 st))(addr div pagesize st :=
            memcpy (page_view st (addr div pagesize st))
               (addr mod pagesize st) buffer pos (chunk (pagesize st) addr bl)) \<and>
         faults (at45 st1) = faults (at45 st) \<and>
         calls (at45 st1) = calls (at45 st) @
            (if last_page st = addr div pagesize st then [] else [ReadPage (addr div pagesize st)]) @
            [WritePage (addr div pagesize st)
               (memcpy (page_view st (addr div pagesize st))
                  (addr mod pagesize st) buffer pos (chunk (pagesize st) addr bl))]"
  by (auto simp: program_step_def step_conversions[OF assms(1,3)] Let_def read_page_def
      write_page_def page_view_def cong: if_cong split: if_splits)


lemma read_step_normal:
  assumes "well_formed st" "0 < bl" "addr + bl \<le> totalsize st" "pos + bl \<le> length buffer"
  shows "read_step st buffer pos addr bl = Inl (r, out', st') \<Longrightarrow> r \<noteq> 0"
    and "read_step st buffer pos addr bl = Inr (st1, buffer1, pos1, addr1, bl1) \<Longrightarrow>
         pos1 = pos + chunk (pagesize st) addr bl \<and>
         addr1 = addr + chunk (pagesize st) addr bl \<and>
         bl1 = bl - chunk (pagesize st) addr bl \<and>
         buffer1 = memcpy buffer pos (page_view st (addr div pagesize st))
                     (addr mod pagesize st) (chunk (pagesize st) addr bl) \<and>
         pagesize st1 = pagesize st \<and> totalsize st1 = totalsize st \<and>
         last_page st1 = addr div pagesize st \<and>
         pagebuffer st1 = Some (page_view st (addr div pagesize st)) \<and>
         flash (at45 st1) = flash (at45 st) \<and>
         faults (at45 st1) = faults (at45 st) \<and>
         calls (at45 st1) = calls (at45 st) @
            (if last_page st = addr div pagesize st then [] else [ReadPage (addr div pagesize st)])"
  by (auto simp: read_step_def step_conversions[OF assms(1,3)] Let_def read_page_def
      page_view_def cong: if_cong split: if_splits)

text \<open>The state after a successful iteration is well-formed again.\<close>

lemma program_step_wf:
  assumes "well_formed st" "0 < bl" "addr + bl \<le> totalsize st" "pos + bl \<le> length buffer"
    and "program_step st buffer pos addr bl = Inr (st1, pos1, addr1, bl1)"
  shows "well_formed st1"
proof -
  let ?c = "chunk (pagesize st) addr bl"
  let ?b = "memcpy (page_view st (addr div pagesize st)) (addr mod pagesize st) buffer pos ?c"
  note f = program_step_normal(2)[OF assms]
  have ps: "0 < pagesize st" using assms(1) by (simp add: well_formed_def)
  have "addr mod pagesize st + ?c \<le> length (page_view st (addr div pagesize st))"
    using chunk_in_page[OF ps] length_page_view[OF assms(1)] by simp
  moreover have "pos + ?c \<le> length buffer" using chunk_le(1)[of "pagesize st" addr bl] assms(4) by linarith
  ultimately have l: "length ?b = pagesize st"
    using length_page_view[OF assms(1)] by (simp add: length_memcpy)
  show ?thesis using f l assms(1) by (simp add: well_formed_def)
qed

lemma read_step_wf:
  assumes "well_formed st" "0 < bl" "addr + bl \<le> totalsize st" "pos + bl \<le> length buffer"
    and "read_step st buffer pos addr bl = Inr (st1, buffer1, pos1, addr1, bl1)"
  shows "well_formed st1"
  using read_step_normal(2)[OF assms] length_page_view[OF assms(1)] assms(1)
  by (simp add: well_formed_def)

section \<open>Induction along a successful run\<close>

lemma program_loop_success_induct [consumes 4, case_names stop step]:
  assumes "program_loop st buffer pos addr bl = Some (0, st')"
    and "well_formed st" "addr + bl \<le> totalsize st" "pos + bl \<le> length buffer"
    and base: "\<And>pos addr. well_formed st' \<Longrightarrow> P st' pos addr 0"
    and step: "\<And>st pos addr bl st1.
      well_formed st \<Longrightarrow> 0 < bl \<Longrightarrow> addr + bl \<le> totalsize st \<Longrightarrow> pos + bl \<le> length buffer \<Longrightarrow>
      program_step st buffer pos addr bl =
        Inr (st1, pos + chunk (pagesize st) addr bl, addr + chunk (pagesize st) addr bl,
             bl - chunk (pagesize st) addr bl) \<Longrightarrow>
      well_formed st1 \<Longrightarrow>
      program_loop st1 buffer (pos + chunk (pagesize st) addr bl)
        (addr + chunk (pagesize st) addr bl) (bl - chunk (pagesize st) addr bl) = Some (0, st') \<Longrightarrow>
      P st1 (pos + chunk (pagesize st) addr bl) (addr + chunk (pagesize st) addr bl)
        (bl - chunk (pagesize st) addr bl) \<Longrightarrow>
      P st pos addr bl"
  shows "P st pos addr bl"
  using assms(1-4)
proof (induction bl arbitrary: st pos addr rule: less_induct)
  case (less bl)
  show ?case
  proof (cases "bl = 0")
    case True
    with less.prems(1) have "st' = st" by (simp add: program_loop_zero BD_ERROR_OK_def)
    then show ?thesis using True base less.prems(2) by simp
  next
    case False
    then have pos: "0 < bl" by simp
    let ?c = "chunk (pagesize st) addr bl"
    note n = program_step_normal[OF less.prems(2) pos less.prems(3,4)]
    show ?thesis
    proof (cases "program_step st buffer pos addr bl")
      case (Inl res)
      then have "program_loop st buffer pos addr bl = Some res"
        using pos by (subst program_loop.simps) simp
      with less.prems(1) have "res = (0, st')" by simp
      with Inl n(1)[of 0 st'] show ?thesis by simp
    next
      case (Inr nxt)
      obtain st1 pos1 addr1 bl1 where nxt: "nxt = (st1, pos1, addr1, bl1)" by (cases nxt) auto
      note s = Inr[unfolded nxt]
      from n(2)[OF s] have e: "pos1 = pos + ?c" "addr1 = addr + ?c" "bl1 = bl - ?c"
        and ps: "pagesize st1 = pagesize st" and ts: "totalsize st1 = totalsize st"
        by simp_all
      have w: "well_formed st1" by (rule program_step_wf[OF less.prems(2) pos less.prems(3,4) s])
      have "program_loop st buffer pos addr bl = program_loop st1 buffer pos1 addr1 bl1"
        using pos s by (subst program_loop.simps) simp
      with less.prems(1) have run: "program_loop st1 buffer pos1 addr1 bl1 = Some (0, st')" by simp
      have c0: "0 < ?c" using less.prems(2) pos by (intro chunk_pos) (simp_all add: well_formed_def)
      have cl: "?c \<le> bl" by (rule chunk_le(1))
      have lt: "bl1 < bl" using e c0 pos by simp
      have b1: "addr1 + bl1 \<le> totalsize st1" using e ts cl less.prems(3) by simp
      have b2: "pos1 + bl1 \<le> length buffer" using e cl less.prems(4) by simp
      have "P st1 pos1 addr1 bl1" by (rule less.IH[OF lt run w b1 b2])
      then show ?thesis
        using step[OF less.prems(2) pos less.prems(3,4) s[unfolded e] w run[unfolded e]] e by simp
    qed
  qed
qed

section \<open>Pages of a byte range\<close>

lemma addr_split: "(addr :: nat) = ps * (addr div ps) + addr mod ps"
  by simp

lemma last_page_single:
  fixes addr :: nat
  assumes "0 < ps" "0 < bl" "bl \<le> ps - addr mod ps"
  shows "(addr + bl - 1) div ps = addr div ps"
proof (rule div_nat_eqI)
  have e: "addr = ps * (addr div ps) + addr mod ps" by simp
  show "ps * (addr div ps) \<le> addr + bl - 1"
    using e assms(2) by linarith
  have m: "addr mod ps < ps" using assms(1) by simp
  have "addr + bl - 1 < ps * (addr div ps) + ps" using e m assms by linarith
  then show "addr + bl - 1 < ps * Suc (addr div ps)" by simp
qed

lemma next_page_start:
  fixes addr :: nat
  assumes "0 < ps"
  shows "(addr + (ps - addr mod ps)) div ps = Suc (addr div ps)"
    and "(addr + (ps - addr mod ps)) mod ps = 0"
proof -
  have m: "addr mod ps < ps" using assms by simp
  have a: "addr = ps * (addr div ps) + addr mod ps" by simp
  have "addr + (ps - addr mod ps) = ps * (addr div ps) + ps" using a m by linarith
  then have e: "addr + (ps - addr mod ps) = ps * Suc (addr div ps)" by simp
  show "(addr + (ps - addr mod ps)) div ps = Suc (addr div ps)"
    unfolding e using assms by simp
  show "(addr + (ps - addr mod ps)) mod ps = 0"
    unfolding e by simp
qed

lemma last_page_ge:
  fixes addr :: nat
  assumes "0 < ps" "ps - addr mod ps < bl"
  shows "Suc (addr div ps) \<le> (addr + bl - 1) div ps"
proof -
  have "addr + (ps - addr mod ps) \<le> addr + bl - 1" using assms by linarith
  then have "(addr + (ps - addr mod ps)) div ps \<le> (addr + bl - 1) div ps"
    by (rule div_le_mono)
  then show ?thesis using next_page_start(1)[OF assms(1)] by simp
qed

lemma pages_of_step:
  assumes "0 < ps" "0 < bl"
  shows "pages_of ps addr bl =
           addr div ps # pages_of ps (addr + chunk ps addr bl) (bl - chunk ps addr bl)"
proof (cases "bl \<le> ps - addr mod ps")
  case True
  then have c: "chunk ps addr bl = bl" by (simp add: chunk_def)
  show ?thesis
    using assms(2) last_page_single[OF assms True] by (simp add: pages_of_def c)
next
  case False
  then have lt: "ps - addr mod ps < bl" by simp
  then have c: "chunk ps addr bl = ps - addr mod ps" by (simp add: chunk_def)
  have r: "bl - (ps - addr mod ps) \<noteq> 0" using lt by simp
  have s: "addr + (ps - addr mod ps) + (bl - (ps - addr mod ps)) = addr + bl" using lt by simp
  have "[addr div ps ..< Suc ((addr + bl - 1) div ps)] =
          addr div ps # [Suc (addr div ps) ..< Suc ((addr + bl - 1) div ps)]"
    using last_page_ge[OF assms(1) lt] by (intro upt_conv_Cons) simp
  then show ?thesis
    using assms(2) r by (simp add: pages_of_def c s next_page_start(1)[OF assms(1)])
qed

lemma pages_of_zero: "pages_of ps addr 0 = []"
  by (simp add: pages_of_def)

lemma next_chunk_page:
  assumes "0 < ps" "chunk ps addr bl < bl"
  shows "(addr + chunk ps addr bl) div ps = Suc (addr div ps)"
    and "chunk ps addr bl = ps - addr mod ps"
proof -
  show c: "chunk ps addr bl = ps - addr mod ps" using assms(2) by (simp add: chunk_def min_def split: if_splits)
  show "(addr + chunk ps addr bl) div ps = Suc (addr div ps)"
    unfolding c by (rule next_page_start(1)[OF assms(1)])
qed

text \<open>The bytes of the chunk at \<open>addr\<close>, by page and offset.\<close>

lemma in_chunk_iff:
  fixes a addr :: nat
  assumes "0 < ps" "c \<le> ps - addr mod ps"
  shows "(a div ps = addr div ps \<and> addr mod ps \<le> a mod ps \<and> a mod ps < addr mod ps + c)
         \<longleftrightarrow> (addr \<le> a \<and> a < addr + c)"
proof
  assume l: "a div ps = addr div ps \<and> addr mod ps \<le> a mod ps \<and> a mod ps < addr mod ps + c"
  have "a = ps * (addr div ps) + a mod ps" using l addr_split[of a ps] by simp
  moreover have "addr = ps * (addr div ps) + addr mod ps" by simp
  ultimately show "addr \<le> a \<and> a < addr + c" using l by linarith
next
  assume r: "addr \<le> a \<and> a < addr + c"
  have m: "addr mod ps < ps" using assms by simp
  have e: "addr = ps * (addr div ps) + addr mod ps" by simp
  have lo: "ps * (addr div ps) \<le> a" using r e by linarith
  have "a < ps * (addr div ps) + ps" using r e assms(2) m by linarith
  then have hi: "a < ps * Suc (addr div ps)" by simp
  have d: "a div ps = addr div ps" by (rule div_nat_eqI[OF lo hi])
  have "a = ps * (addr div ps) + a mod ps" using d addr_split[of a ps] by simp
  moreover have "addr = ps * (addr div ps) + addr mod ps" by simp
  ultimately have "addr mod ps \<le> a mod ps \<and> a mod ps < addr mod ps + c" using r by linarith
  then show "a div ps = addr div ps \<and> addr mod ps \<le> a mod ps \<and> a mod ps < addr mod ps + c"
    using d by simp
qed

lemma in_chunk_offset:
  fixes a addr :: nat
  assumes "a div ps = addr div ps" "addr \<le> a"
  shows "a mod ps - addr mod ps = a - addr"
proof -
  have "a = ps * (addr div ps) + a mod ps" using assms(1) addr_split[of a ps] by simp
  moreover have "addr = ps * (addr div ps) + addr mod ps" by simp
  ultimately show ?thesis by linarith
qed

section \<open>A successful program\<close>

lemma new_calls_append:
  assumes "calls mid = calls chip @ xs" "calls chip' = calls mid @ ys"
  shows "new_calls chip chip' = xs @ ys"
  using assms by (simp add: new_calls_def)

lemma new_calls_same: "new_calls chip chip = []"
  by (simp add: new_calls_def)

lemma program_loop_calls:
  "program_loop st buffer pos addr bl = Some (r, st') \<Longrightarrow>
   calls (at45 st') = calls (at45 st) @ new_calls (at45 st) (at45 st')"
  using program_loop_propagates[of st buffer pos addr bl "(r, st')"]
  by (simp add: propagates_def)

lemma read_loop_calls:
  "read_loop st buffer pos addr bl = Some (r, out', st') \<Longrightarrow>
   calls (at45 st') = calls (at45 st) @ new_calls (at45 st) (at45 st')"
  using read_loop_propagates[of st buffer pos addr bl "(r, out', st')"]
  by (simp add: propagates_def)

text \<open>The geometry, the fault schedule and well-formedness survive.\<close>

lemma program_loop_success_frame:
  assumes "program_loop st buffer pos addr bl = Some (0, st')"
    and "well_formed st" "addr + bl \<le> totalsize st" "pos + bl \<le> length buffer"
  shows "well_formed st' \<and> pagesize st' = pagesize st \<and> totalsize st' = totalsize st \<and>
         faults (at45 st') = faults (at45 st)"
  using assms
proof (induction rule: program_loop_success_induct)
  case (stop pos addr)
  then show ?case by simp
next
  case (step st pos addr bl st1)
  from program_step_normal(2)[OF step(1-5)] step(8) show ?case by simp
qed

text \<open>The page \<open>last_page\<close> names afterwards, and the page buffer.\<close>

lemma program_loop_success_cache:
  assumes "program_loop st buffer pos addr bl = Some (0, st')"
    and "well_formed st" "addr + bl \<le> totalsize st" "pos + bl \<le> length buffer"
  shows "0 < bl \<longrightarrow> last_page st' = (addr + bl - 1) div pagesize st \<and>
           pagebuffer st' = Some (flash (at45 st') (last_page st'))"
  using assms
proof (induction rule: program_loop_success_induct)
  case (stop pos addr)
  then show ?case by simp
next
  case (step st pos addr bl st1)
  let ?c = "chunk (pagesize st) addr bl"
  note f = program_step_normal(2)[OF step(1-5)]
  have ps: "0 < pagesize st" using step(1) by (simp add: well_formed_def)
  show ?case
  proof (cases "bl - ?c = 0")
    case True
    with step(7) have e: "st' = st1" by (simp add: program_loop_zero BD_ERROR_OK_def)
    have "bl \<le> pagesize st - addr mod pagesize st"
      using True chunk_le(2)[of "pagesize st" addr bl] by simp
    from last_page_single[OF ps step(2) this] f e show ?thesis by simp
  next
    case False
    then have "0 < bl - ?c" by simp
    with step(8) have "last_page st' = (addr + ?c + (bl - ?c) - 1) div pagesize st1"
      and b: "pagebuffer st' = Some (flash (at45 st') (last_page st'))" by simp_all
    moreover have "addr + ?c + (bl - ?c) = addr + bl" using chunk_le(1)[of "pagesize st" addr bl] by simp
    ultimately show ?thesis using f by simp
  qed
qed


text \<open>The primitive calls, without their data.\<close>

lemma program_loop_success_accesses:
  assumes "program_loop st buffer pos addr bl = Some (0, st')"
    and "well_formed st" "addr + bl \<le> totalsize st" "pos + bl \<le> length buffer"
  shows "map access_of (new_calls (at45 st) (at45 st')) =
           (let xs = concat (map (\<lambda>p. [Load p, Store p]) (pages_of (pagesize st) addr bl))
            in if last_page st = addr div pagesize st then tl xs else xs)"
  using assms
proof (induction rule: program_loop_success_induct)
  case (stop pos addr)
  then show ?case by (simp add: new_calls_same pages_of_zero)
next
  case (step st pos addr bl st1)
  let ?ps = "pagesize st"
  let ?c = "chunk ?ps addr bl"
  let ?page = "addr div ?ps"
  let ?rest = "concat (map (\<lambda>p. [Load p, Store p]) (pages_of ?ps (addr + ?c) (bl - ?c)))"
  note f = program_step_normal(2)[OF step(1-5)]
  have ps: "0 < ?ps" using step(1) by (simp add: well_formed_def)
  from f obtain xs where xs: "calls (at45 st1) = calls (at45 st) @ xs"
    and axs: "map access_of xs = (if last_page st = ?page then [] else [Load ?page]) @ [Store ?page]"
    by auto
  have n: "new_calls (at45 st) (at45 st') = xs @ new_calls (at45 st1) (at45 st')"
    by (rule new_calls_append[OF xs program_loop_calls[OF step(7)]])
  have r: "map access_of (new_calls (at45 st1) (at45 st')) = ?rest"
  proof (cases "bl - ?c = 0")
    case True
    with step(7) have "st' = st1" by (simp add: program_loop_zero BD_ERROR_OK_def)
    then show ?thesis using True by (simp add: new_calls_same pages_of_zero)
  next
    case False
    then have "?c < bl" by simp
    from next_chunk_page(1)[OF ps this] have "last_page st1 \<noteq> (addr + ?c) div pagesize st1"
      using f by simp
    with step(8) f show ?thesis by (simp add: Let_def)
  qed
  have "map access_of (new_calls (at45 st) (at45 st')) =
          (if last_page st = ?page then [] else [Load ?page]) @ [Store ?page] @ ?rest"
    using n axs r by simp
  also have "\<dots> = (let xs = concat (map (\<lambda>p. [Load p, Store p]) (pages_of ?ps addr bl))
                   in if last_page st = ?page then tl xs else xs)"
    by (simp add: pages_of_step[OF ps step(2), of addr] Let_def)
  finally show ?case .
qed

text \<open>The flash afterwards, byte by byte.\<close>

lemma program_loop_success_bytes:
  assumes "program_loop st buffer pos addr bl = Some (0, st')"
    and "well_formed st" "addr + bl \<le> totalsize st" "pos + bl \<le> length buffer"
  shows "hw st' a =
           (if addr \<le> a \<and> a < addr + bl then buffer ! (pos + (a - addr))
            else if 0 < bl \<and> a div pagesize st = addr div pagesize st
                 then page_view st (a div pagesize st) ! (a mod pagesize st)
                 else hw st a)"
  using assms
proof (induction rule: program_loop_success_induct)
  case (stop pos addr)
  then show ?case by auto
next
  case (step st pos addr bl st1)
  let ?ps = "pagesize st"
  let ?c = "chunk ?ps addr bl"
  let ?page = "addr div ?ps"
  let ?off = "addr mod ?ps"
  let ?b = "memcpy (page_view st ?page) ?off buffer pos ?c"
  note f = program_step_normal(2)[OF step(1-5)]
  have ps: "0 < ?ps" using step(1) by (simp add: well_formed_def)
  have ps1: "pagesize st1 = ?ps" using f by simp
  have cl: "?c \<le> bl" by (rule chunk_le(1))
  have cp: "?c \<le> ?ps - ?off" by (rule chunk_le(2))
  have am: "a mod ?ps < ?ps" using ps by simp
  text \<open>the page written by this iteration\<close>
  have b1: "?off + ?c \<le> length (page_view st ?page)"
    using chunk_in_page[OF ps] length_page_view[OF step(1)] by simp
  have b2: "pos + ?c \<le> length buffer" using cl step(4) by linarith
  have b3: "a mod ?ps < length (page_view st ?page)" using am length_page_view[OF step(1)] by simp
  have nb: "?b ! (a mod ?ps) =
              (if ?off \<le> a mod ?ps \<and> a mod ?ps < ?off + ?c then buffer ! (pos + (a mod ?ps - ?off))
               else page_view st ?page ! (a mod ?ps))"
    by (rule nth_memcpy[OF b1 b2 b3])
  have hw1: "hw st1 a = (if a div ?ps = ?page then ?b ! (a mod ?ps) else hw st a)"
    using f by (simp add: hw_def)
  text \<open>the rest of the run\<close>
  have ih: "hw st' a =
      (if addr + ?c \<le> a \<and> a < addr + ?c + (bl - ?c) then buffer ! (pos + ?c + (a - (addr + ?c)))
       else if 0 < bl - ?c \<and> a div ?ps = (addr + ?c) div ?ps
            then page_view st1 (a div ?ps) ! (a mod ?ps)
            else hw st1 a)"
    using step(8) ps1 by simp
  have e: "addr + ?c + (bl - ?c) = addr + bl" using cl by simp
  consider (later) "addr + ?c \<le> a" "a < addr + bl"
    | (now) "addr \<le> a" "a < addr + ?c"
    | (out) "\<not> (addr \<le> a \<and> a < addr + bl)"
    by linarith
  then show ?case
  proof cases
    case later
    then have "pos + ?c + (a - (addr + ?c)) = pos + (a - addr)" by simp
    then show ?thesis using ih e later by simp
  next
    case now
    from in_chunk_iff[OF ps cp, of a] now
    have d: "a div ?ps = ?page" "?off \<le> a mod ?ps" "a mod ?ps < ?off + ?c" by simp_all
    have o: "a mod ?ps - ?off = a - addr" by (rule in_chunk_offset[OF d(1) now(1)])
    have nl: "\<not> (addr + ?c \<le> a \<and> a < addr + ?c + (bl - ?c))" using now by simp
    have np: "\<not> (0 < bl - ?c \<and> a div ?ps = (addr + ?c) div ?ps)"
    proof
      assume h: "0 < bl - ?c \<and> a div ?ps = (addr + ?c) div ?ps"
      then have "?c < bl" by simp
      from next_chunk_page(1)[OF ps this] h d(1) show False by simp
    qed
    have "hw st' a = hw st1 a" by (simp only: ih nl np if_False)
    also have "\<dots> = buffer ! (pos + (a - addr))" using hw1 d nb o by simp
    finally show ?thesis using now cl by auto
  next
    case out
    then have nl: "\<not> (addr + ?c \<le> a \<and> a < addr + ?c + (bl - ?c))" using e by simp
    have nn: "\<not> (addr \<le> a \<and> a < addr + ?c)" using out cl by linarith
    show ?thesis
    proof (cases "a div ?ps = ?page")
      case True
      have np: "\<not> (0 < bl - ?c \<and> a div ?ps = (addr + ?c) div ?ps)"
      proof
        assume h: "0 < bl - ?c \<and> a div ?ps = (addr + ?c) div ?ps"
        then have "?c < bl" by simp
        from next_chunk_page(1)[OF ps this] h True show False by simp
      qed
      have ni: "\<not> (?off \<le> a mod ?ps \<and> a mod ?ps < ?off + ?c)"
        using in_chunk_iff[OF ps cp, of a] nn True by simp
      have "hw st' a = hw st1 a" by (simp only: ih nl np if_False)
      also have "\<dots> = page_view st ?page ! (a mod ?ps)" using hw1 True nb ni by simp
      finally show ?thesis using out True step(2) by auto
    next
      case False
      have "hw st' a = hw st a"
      proof (cases "0 < bl - ?c \<and> a div ?ps = (addr + ?c) div ?ps")
        case True
        then have "?c < bl" by simp
        from next_chunk_page(1)[OF ps this] True have "a div ?ps \<noteq> last_page st1" using f by simp
        then have pv: "page_view st1 (a div ?ps) = flash (at45 st) (a div ?ps)"
          using f False by (simp add: page_view_def)
        have "hw st' a = page_view st1 (a div ?ps) ! (a mod ?ps)"
          unfolding ih using nl True by auto
        then show ?thesis using pv by (simp add: hw_def)
      next
        case n: False
        have "hw st' a = hw st1 a" by (simp only: ih nl n if_False)
        then show ?thesis using hw1 False by simp
      qed
      then show ?thesis using out False by auto
    qed
  qed
qed

section \<open>A successful read\<close>

lemma read_loop_success_induct [consumes 4, case_names stop step]:
  assumes "read_loop st buffer pos addr bl = Some (0, out', st')"
    and "well_formed st" "addr + bl \<le> totalsize st" "pos + bl \<le> length buffer"
    and base: "\<And>pos addr. well_formed st' \<Longrightarrow> P st' out' pos addr 0"
    and step: "\<And>st buffer pos addr bl st1 buffer1.
      well_formed st \<Longrightarrow> 0 < bl \<Longrightarrow> addr + bl \<le> totalsize st \<Longrightarrow> pos + bl \<le> length buffer \<Longrightarrow>
      read_step st buffer pos addr bl =
        Inr (st1, buffer1, pos + chunk (pagesize st) addr bl,
             addr + chunk (pagesize st) addr bl, bl - chunk (pagesize st) addr bl) \<Longrightarrow>
      well_formed st1 \<Longrightarrow> length buffer1 = length buffer \<Longrightarrow>
      read_loop st1 buffer1 (pos + chunk (pagesize st) addr bl)
        (addr + chunk (pagesize st) addr bl) (bl - chunk (pagesize st) addr bl)
        = Some (0, out', st') \<Longrightarrow>
      P st1 buffer1 (pos + chunk (pagesize st) addr bl) (addr + chunk (pagesize st) addr bl)
        (bl - chunk (pagesize st) addr bl) \<Longrightarrow>
      P st buffer pos addr bl"
  shows "P st buffer pos addr bl"
  using assms(1-4)
proof (induction bl arbitrary: st buffer pos addr rule: less_induct)
  case (less bl)
  show ?case
  proof (cases "bl = 0")
    case True
    with less.prems(1) have "st' = st" "out' = buffer"
      by (simp_all add: read_loop_zero BD_ERROR_OK_def)
    then show ?thesis using True base less.prems(2) by simp
  next
    case False
    then have pos: "0 < bl" by simp
    let ?c = "chunk (pagesize st) addr bl"
    note n = read_step_normal[OF less.prems(2) pos less.prems(3,4)]
    show ?thesis
    proof (cases "read_step st buffer pos addr bl")
      case (Inl res)
      then have "read_loop st buffer pos addr bl = Some res"
        using pos by (subst read_loop.simps) simp
      with less.prems(1) have "res = (0, out', st')" by simp
      with Inl n(1)[of 0 out' st'] show ?thesis by simp
    next
      case (Inr nxt)
      obtain st1 buffer1 pos1 addr1 bl1 where nxt: "nxt = (st1, buffer1, pos1, addr1, bl1)"
        by (cases nxt) auto
      note s = Inr[unfolded nxt]
      from n(2)[OF s] have e: "pos1 = pos + ?c" "addr1 = addr + ?c" "bl1 = bl - ?c"
        and ps: "pagesize st1 = pagesize st" and ts: "totalsize st1 = totalsize st"
        and b1: "buffer1 = memcpy buffer pos (page_view st (addr div pagesize st))
                     (addr mod pagesize st) ?c"
        by simp_all
      have w: "well_formed st1" by (rule read_step_wf[OF less.prems(2) pos less.prems(3,4) s])
      have "read_loop st buffer pos addr bl = read_loop st1 buffer1 pos1 addr1 bl1"
        using pos s by (subst read_loop.simps) simp
      with less.prems(1) have run: "read_loop st1 buffer1 pos1 addr1 bl1 = Some (0, out', st')"
        by simp
      have p0: "0 < pagesize st" using less.prems(2) by (simp add: well_formed_def)
      have c0: "0 < ?c" using p0 pos by (rule chunk_pos)
      have cl: "?c \<le> bl" by (rule chunk_le(1))
      have l1: "pos + ?c \<le> length buffer" using cl less.prems(4) by linarith
      have l2: "addr mod pagesize st + ?c \<le> length (page_view st (addr div pagesize st))"
        using chunk_in_page[OF p0] length_page_view[OF less.prems(2)] by simp
      have len: "length buffer1 = length buffer" unfolding b1 by (rule length_memcpy[OF l1 l2])
      have lt: "bl1 < bl" using e c0 pos by simp
      have b1': "addr1 + bl1 \<le> totalsize st1" using e ts cl less.prems(3) by simp
      have b2': "pos1 + bl1 \<le> length buffer1" using e cl less.prems(4) len by simp
      have "P st1 buffer1 pos1 addr1 bl1" by (rule less.IH[OF lt run w b1' b2'])
      then show ?thesis
        using step[OF less.prems(2) pos less.prems(3,4) s[unfolded e] w len run[unfolded e]] e
        by simp
    qed
  qed
qed

lemma read_loop_success_frame:
  assumes "read_loop st buffer pos addr bl = Some (0, out', st')"
    and "well_formed st" "addr + bl \<le> totalsize st" "pos + bl \<le> length buffer"
  shows "well_formed st' \<and> pagesize st' = pagesize st \<and> totalsize st' = totalsize st \<and>
         faults (at45 st') = faults (at45 st) \<and> flash (at45 st') = flash (at45 st) \<and>
         length out' = length buffer"
  using assms
proof (induction rule: read_loop_success_induct)
  case (stop pos addr)
  then show ?case by simp
next
  case (step st buffer pos addr bl st1 buffer1)
  from read_step_normal(2)[OF step(1-5)] step(7,9) show ?case by simp
qed

text \<open>
  The page \<open>last_page\<close> names afterwards, and the page buffer: what the translator
  worked on for that page (for the first page, the buffer it found, when cached).
\<close>

lemma read_loop_success_cache:
  assumes "read_loop st buffer pos addr bl = Some (0, out', st')"
    and "well_formed st" "addr + bl \<le> totalsize st" "pos + bl \<le> length buffer"
  shows "0 < bl \<longrightarrow> last_page st' = (addr + bl - 1) div pagesize st \<and>
           pagebuffer st' = Some (if last_page st' = addr div pagesize st
                                  then page_view st (addr div pagesize st)
                                  else flash (at45 st) (last_page st'))"
  using assms
proof (induction rule: read_loop_success_induct)
  case (stop pos addr)
  then show ?case by simp
next
  case (step st buffer pos addr bl st1 buffer1)
  let ?c = "chunk (pagesize st) addr bl"
  note f = read_step_normal(2)[OF step(1-5)]
  have ps: "0 < pagesize st" using step(1) by (simp add: well_formed_def)
  show ?case
  proof (cases "bl - ?c = 0")
    case True
    with step(8) have e: "st' = st1" by (simp add: read_loop_zero BD_ERROR_OK_def)
    have "bl \<le> pagesize st - addr mod pagesize st"
      using True chunk_le(2)[of "pagesize st" addr bl] by simp
    from last_page_single[OF ps step(2) this] f e show ?thesis by simp
  next
    case False
    then have lt: "?c < bl" by simp
    note np = next_chunk_page(1)[OF ps lt]
    have e: "addr + ?c + (bl - ?c) = addr + bl" using lt by simp
    from step(9) False f
    have l: "last_page st' = (addr + bl - 1) div pagesize st"
      and b: "pagebuffer st' = Some (if last_page st' = (addr + ?c) div pagesize st
                                  then page_view st1 ((addr + ?c) div pagesize st)
                                  else flash (at45 st1) (last_page st'))"
      by (simp_all add: e)
    have pv: "page_view st1 ((addr + ?c) div pagesize st) = flash (at45 st) ((addr + ?c) div pagesize st)"
      using f np by (simp add: page_view_def)
    have ge: "Suc (addr div pagesize st) \<le> last_page st'"
      unfolding l using last_page_ge[OF ps, of addr bl] lt next_chunk_page(2)[OF ps lt] by simp
    then have ne: "last_page st' \<noteq> addr div pagesize st" by simp
    have "pagebuffer st' = Some (flash (at45 st) (last_page st'))"
      using b pv f by (auto split: if_splits)
    then show ?thesis using l ne by simp
  qed
qed

lemma read_loop_success_calls:
  assumes "read_loop st buffer pos addr bl = Some (0, out', st')"
    and "well_formed st" "addr + bl \<le> totalsize st" "pos + bl \<le> length buffer"
  shows "new_calls (at45 st) (at45 st') =
           map ReadPage (if last_page st = addr div pagesize st
                         then tl (pages_of (pagesize st) addr bl)
                         else pages_of (pagesize st) addr bl)"
  using assms
proof (induction rule: read_loop_success_induct)
  case (stop pos addr)
  then show ?case by (simp add: new_calls_same pages_of_zero)
next
  case (step st buffer pos addr bl st1 buffer1)
  let ?ps = "pagesize st"
  let ?c = "chunk ?ps addr bl"
  let ?page = "addr div ?ps"
  let ?rest = "map ReadPage (pages_of ?ps (addr + ?c) (bl - ?c))"
  note f = read_step_normal(2)[OF step(1-5)]
  have ps: "0 < ?ps" using step(1) by (simp add: well_formed_def)
  from f have xs: "calls (at45 st1) = calls (at45 st) @
       (if last_page st = ?page then [] else [ReadPage ?page])" by simp
  have n: "new_calls (at45 st) (at45 st') =
      (if last_page st = ?page then [] else [ReadPage ?page]) @ new_calls (at45 st1) (at45 st')"
    by (rule new_calls_append[OF xs read_loop_calls[OF step(8)]])
  have r: "new_calls (at45 st1) (at45 st') = ?rest"
  proof (cases "bl - ?c = 0")
    case True
    with step(8) have "st' = st1" by (simp add: read_loop_zero BD_ERROR_OK_def)
    then show ?thesis using True by (simp add: new_calls_same pages_of_zero)
  next
    case False
    then have "?c < bl" by simp
    from next_chunk_page(1)[OF ps this] have "last_page st1 \<noteq> (addr + ?c) div pagesize st1"
      using f by simp
    with step(9) f show ?thesis by simp
  qed
  show ?case
    unfolding n r by (simp add: pages_of_step[OF ps step(2), of addr])
qed

text \<open>The destination buffer afterwards, byte by byte.\<close>

lemma read_loop_success_bytes:
  assumes "read_loop st buffer pos addr bl = Some (0, out', st')"
    and "well_formed st" "addr + bl \<le> totalsize st" "pos + bl \<le> length buffer"
  shows "k < length buffer \<longrightarrow> out' ! k =
           (if pos \<le> k \<and> k < pos + bl
            then (if (addr + (k - pos)) div pagesize st = addr div pagesize st
                  then page_view st (addr div pagesize st) ! ((addr + (k - pos)) mod pagesize st)
                  else hw st (addr + (k - pos)))
            else buffer ! k)"
  using assms
proof (induction rule: read_loop_success_induct)
  case (stop pos addr)
  then show ?case by auto
next
  case (step st buffer pos addr bl st1 buffer1)
  let ?ps = "pagesize st"
  let ?c = "chunk ?ps addr bl"
  let ?page = "addr div ?ps"
  let ?off = "addr mod ?ps"
  let ?a = "addr + (k - pos)"
  note f = read_step_normal(2)[OF step(1-5)]
  have ps: "0 < ?ps" using step(1) by (simp add: well_formed_def)
  have ps1: "pagesize st1 = ?ps" using f by simp
  have cl: "?c \<le> bl" by (rule chunk_le(1))
  have cp: "?c \<le> ?ps - ?off" by (rule chunk_le(2))
  have l1: "pos + ?c \<le> length buffer" using cl step(4) by linarith
  have l2: "?off + ?c \<le> length (page_view st ?page)"
    using chunk_in_page[OF ps] length_page_view[OF step(1)] by simp
  show ?case
  proof
    assume k: "k < length buffer"
    have nb: "buffer1 ! k =
        (if pos \<le> k \<and> k < pos + ?c then page_view st ?page ! (?off + (k - pos)) else buffer ! k)"
      using f nth_memcpy[OF l1 l2 k] by simp
    have ih: "out' ! k =
        (if pos + ?c \<le> k \<and> k < pos + ?c + (bl - ?c)
         then (if (addr + ?c + (k - (pos + ?c))) div ?ps = (addr + ?c) div ?ps
               then page_view st1 ((addr + ?c) div ?ps) ! ((addr + ?c + (k - (pos + ?c))) mod ?ps)
               else hw st1 (addr + ?c + (k - (pos + ?c))))
         else buffer1 ! k)"
      using step(9) k step(7) ps1 by simp
    have e: "pos + ?c + (bl - ?c) = pos + bl" using cl by simp
    consider (later) "pos + ?c \<le> k" "k < pos + bl"
      | (now) "pos \<le> k" "k < pos + ?c"
      | (out) "\<not> (pos \<le> k \<and> k < pos + bl)"
      by linarith
    then show "out' ! k =
           (if pos \<le> k \<and> k < pos + bl
            then (if ?a div ?ps = ?page then page_view st ?page ! (?a mod ?ps) else hw st ?a)
            else buffer ! k)"
    proof cases
      case later
      then have lt: "?c < bl" by linarith
      note np = next_chunk_page(1)[OF ps lt]
      have a: "addr + ?c + (k - (pos + ?c)) = ?a" using later by simp
      have "(addr + ?c) div ?ps \<le> ?a div ?ps" using later by (intro div_le_mono) simp
      then have ne: "?a div ?ps \<noteq> ?page" using np by simp
      have hw1: "hw st1 ?a = hw st ?a" using f by (simp add: hw_def)
      have pv: "page_view st1 ((addr + ?c) div ?ps) = flash (at45 st) ((addr + ?c) div ?ps)"
        using f np by (simp add: page_view_def)
      have "out' ! k = (if ?a div ?ps = (addr + ?c) div ?ps
               then page_view st1 ((addr + ?c) div ?ps) ! (?a mod ?ps)
               else hw st1 ?a)"
        unfolding ih a using later e by auto
      also have "\<dots> = hw st ?a" using pv hw1 by (auto simp: hw_def)
      finally show ?thesis using later ne cl by auto
    next
      case now
      have ar: "addr \<le> ?a" "?a < addr + ?c" using now by simp_all
      from in_chunk_iff[OF ps cp, of ?a] ar
      have d: "?a div ?ps = ?page" "?off \<le> ?a mod ?ps" by simp_all
      have "?a mod ?ps - ?off = ?a - addr" by (rule in_chunk_offset[OF d(1) ar(1)])
      then have o: "?a mod ?ps = ?off + (k - pos)" using d(2) by simp
      have "out' ! k = buffer1 ! k" unfolding ih using now by auto
      also have "\<dots> = page_view st ?page ! (?a mod ?ps)" using nb now o by simp
      finally show ?thesis using now d cl by auto
    next
      case out
      have "out' ! k = buffer1 ! k" unfolding ih using out e by auto
      also have "\<dots> = buffer ! k" using nb out cl by auto
      finally show ?thesis using out by auto
    qed
  qed
qed

section \<open>A fault-free primitive\<close>

lemma program_step_fault_free:
  assumes "fault_free (at45 st)"
  shows "program_step st buffer pos addr bl \<noteq> Inl (r, st')"
    and "program_step st buffer pos addr bl = Inr (st1, pos1, addr1, bl1) \<Longrightarrow> fault_free (at45 st1)"
  using assms
  by (auto simp: program_step_def read_page_def write_page_def fault_free_def Let_def
      split: if_splits)

lemma read_step_fault_free:
  assumes "fault_free (at45 st)"
  shows "read_step st buffer pos addr bl \<noteq> Inl (r, out', st')"
    and "read_step st buffer pos addr bl = Inr (st1, buffer1, pos1, addr1, bl1) \<Longrightarrow>
         fault_free (at45 st1)"
  using assms
  by (auto simp: read_step_def read_page_def fault_free_def Let_def split: if_splits)

lemma program_loop_fault_free:
  assumes "program_loop st buffer pos addr bl = Some res"
  shows "fault_free (at45 st) \<longrightarrow> fst res = 0 \<and> fault_free (at45 (snd res))"
proof (rule program_loop.raw_induct[where P = "\<lambda>s b p a n y.
      fault_free (at45 s) \<longrightarrow> fst y = 0 \<and> fault_free (at45 (snd y))", OF _ assms])
  fix loop s b p a n y
  assume 1: "\<And>s b p a n y. loop s b p a n = Some y \<Longrightarrow>
               fault_free (at45 s) \<longrightarrow> fst y = 0 \<and> fault_free (at45 (snd y))"
    "(if 0 < n then case program_step s b p a n of Inl res \<Rightarrow> Some res
        | Inr (st', pos', addr', bytes_left') \<Rightarrow> loop st' b pos' addr' bytes_left'
      else Some (BD_ERROR_OK, s)) = Some y"
  show "fault_free (at45 s) \<longrightarrow> fst y = 0 \<and> fault_free (at45 (snd y))"
  proof
    assume ff: "fault_free (at45 s)"
    show "fst y = 0 \<and> fault_free (at45 (snd y))"
    proof (cases "0 < n")
      case False
      with 1(2) have "y = (BD_ERROR_OK, s)" by auto
      then show ?thesis using ff by (simp add: BD_ERROR_OK_def)
    next
      case True
      show ?thesis
      proof (cases "program_step s b p a n")
        case (Inl x)
        then show ?thesis using program_step_fault_free(1)[OF ff, of b p a n "fst x" "snd x"] by simp
      next
        case (Inr z)
        obtain s1 p1 a1 n1 where z: "z = (s1, p1, a1, n1)" by (cases z) auto
        with True 1(2) Inr have "loop s1 b p1 a1 n1 = Some y" by simp
        from 1(1)[OF this] program_step_fault_free(2)[OF ff Inr[unfolded z]]
        show ?thesis by simp
      qed
    qed
  qed
qed

lemma read_loop_fault_free:
  assumes "read_loop st buffer pos addr bl = Some res"
  shows "fault_free (at45 st) \<longrightarrow> fst res = 0 \<and> fault_free (at45 (snd (snd res)))"
proof (rule read_loop.raw_induct[where P = "\<lambda>s b p a n y.
      fault_free (at45 s) \<longrightarrow> fst y = 0 \<and> fault_free (at45 (snd (snd y)))", OF _ assms])
  fix loop s b p a n y
  assume 1: "\<And>s b p a n y. loop s b p a n = Some y \<Longrightarrow>
               fault_free (at45 s) \<longrightarrow> fst y = 0 \<and> fault_free (at45 (snd (snd y)))"
    "(if 0 < n then case read_step s b p a n of Inl res \<Rightarrow> Some res
        | Inr (st', buffer', pos', addr', bytes_left') \<Rightarrow> loop st' buffer' pos' addr' bytes_left'
      else Some (BD_ERROR_OK, b, s)) = Some y"
  show "fault_free (at45 s) \<longrightarrow> fst y = 0 \<and> fault_free (at45 (snd (snd y)))"
  proof
    assume ff: "fault_free (at45 s)"
    show "fst y = 0 \<and> fault_free (at45 (snd (snd y)))"
    proof (cases "0 < n")
      case False
      with 1(2) have "y = (BD_ERROR_OK, b, s)" by auto
      then show ?thesis using ff by (simp add: BD_ERROR_OK_def)
    next
      case True
      show ?thesis
      proof (cases "read_step s b p a n")
        case (Inl x)
        then show ?thesis
          using read_step_fault_free(1)[OF ff, of b p a n "fst x" "fst (snd x)" "snd (snd x)"]
          by simp
      next
        case (Inr z)
        obtain s1 b1 p1 a1 n1 where z: "z = (s1, b1, p1, a1, n1)" by (cases z) auto
        with True 1(2) Inr have "loop s1 b1 p1 a1 n1 = Some y" by simp
        from 1(1)[OF this] read_step_fault_free(2)[OF ff Inr[unfolded z]]
        show ?thesis by simp
      qed
    qed
  qed
qed

text \<open>The entry points on an initialised translator and an in-bounds request.\<close>

lemma entry_conversions:
  assumes "well_formed st" "addr + sz \<le> totalsize st"
  shows "u64 addr = addr" "size_t sz = sz" "u64 sz = sz" "u64 (addr + sz) = addr + sz"
proof -
  from assms have a: "addr + sz < 2 ^ 31" by (simp add: well_formed_def)
  show "u64 addr = addr" using a by (intro u64_id) simp
  show "size_t sz = sz" using a by (intro size_t_id) simp
  show "u64 sz = sz" using a by (intro u64_id) simp
  show "u64 (addr + sz) = addr + sz" using a by (intro u64_id) simp
qed

lemma program_entry:
  assumes "well_formed st" "addr + sz \<le> totalsize st"
  shows "program st buf addr sz = program_loop st buf 0 addr sz"
  using wf_pb[OF assms(1)] by (simp add: program_def entry_conversions[OF assms])

lemma read_entry:
  assumes "well_formed st" "addr + sz \<le> totalsize st"
  shows "read st out addr sz = read_loop st out 0 addr sz"
  using wf_pb[OF assms(1)] by (simp add: read_def entry_conversions[OF assms])

lemma program_fault_free:
  assumes "well_formed st" "addr + sz \<le> totalsize st" "fault_free (at45 st)"
  shows "\<exists>st'. program st buf addr sz = Some (BD_ERROR_OK, st') \<and> fault_free (at45 st')"
proof -
  from program_loop_total[OF wf_geom_ok[OF assms(1)], of buf 0 addr sz]
  obtain r st' where l: "program_loop st buf 0 addr sz = Some (r, st')" by force
  from program_loop_fault_free[OF l] assms(3) have "r = 0" "fault_free (at45 st')" by simp_all
  then show ?thesis using l by (simp add: program_entry[OF assms(1,2)] BD_ERROR_OK_def)
qed

lemma read_fault_free:
  assumes "well_formed st" "addr + sz \<le> totalsize st" "fault_free (at45 st)"
  shows "\<exists>out' st'. read st out addr sz = Some (BD_ERROR_OK, out', st') \<and> fault_free (at45 st')"
proof -
  from read_loop_flash[OF wf_geom_ok[OF assms(1)], of out 0 addr sz]
  obtain r out' st' where l: "read_loop st out 0 addr sz = Some (r, out', st')" by blast
  from read_loop_fault_free[OF l] assms(3) have "r = 0" "fault_free (at45 st')" by simp_all
  then show ?thesis using l by (simp add: read_entry[OF assms(1,2)] BD_ERROR_OK_def)
qed

section \<open>Round trip\<close>

lemma page_view_valid:
  assumes "well_formed st" "pagebuffer st = Some (flash (at45 st) (last_page st))"
  shows "page_view st p = flash (at45 st) p"
  using assms by (auto simp: page_view_def pb_def)

lemma dev0_fault_free: "fault_free (at45 dev0)"
  by (simp add: fault_free_def eval_defs)

text \<open>
  C2 (round trip). On an initialised translator with a fault-free storage primitive,
  for an address and a size with \<open>addr + sz \<le> totalsize\<close> (and buffers of at least
  \<open>sz\<close> bytes), \<open>program\<close> of \<open>buf\<close> returns \<open>BD_ERROR_OK\<close>, the following \<open>read\<close> of
  the same range returns \<open>BD_ERROR_OK\<close>, and the first \<open>sz\<close> bytes it delivers are
  the first \<open>sz\<close> bytes of \<open>buf\<close>.
\<close>

theorem round_trip:
  assumes "well_formed st" "addr + sz \<le> totalsize st" "sz \<le> length buf" "sz \<le> length out"
    and "fault_free (at45 st)"
  shows "\<exists>st1 out' st2.
           program st buf addr sz = Some (BD_ERROR_OK, st1) \<and>
           read st1 out addr sz = Some (BD_ERROR_OK, out', st2) \<and>
           take sz out' = take sz buf"
proof -
  from program_fault_free[OF assms(1,2,5), of buf]
  obtain st1 where p: "program st buf addr sz = Some (BD_ERROR_OK, st1)"
    and ff1: "fault_free (at45 st1)" by blast
  have pl: "program_loop st buf 0 addr sz = Some (0, st1)"
    using p by (simp add: program_entry[OF assms(1,2)] BD_ERROR_OK_def)
  have b: "0 + sz \<le> length buf" using assms(3) by simp
  from program_loop_success_frame[OF pl assms(1,2) b]
  have w1: "well_formed st1" and ps: "pagesize st1 = pagesize st" and ts: "totalsize st1 = totalsize st"
    by simp_all
  have b1: "addr + sz \<le> totalsize st1" using assms(2) ts by simp
  from read_fault_free[OF w1 b1 ff1, of out]
  obtain out' st2 where r: "read st1 out addr sz = Some (BD_ERROR_OK, out', st2)" by blast
  have rl: "read_loop st1 out 0 addr sz = Some (0, out', st2)"
    using r by (simp add: read_entry[OF w1 b1] BD_ERROR_OK_def)
  have bo: "0 + sz \<le> length out" using assms(4) by simp
  from read_loop_success_frame[OF rl w1 b1 bo] have len: "length out' = length out" by simp
  have "out' ! k = buf ! k" if k: "k < sz" for k
  proof -
    have sz: "0 < sz" using k by simp
    from program_loop_success_cache[OF pl assms(1,2) b] sz
    have "pagebuffer st1 = Some (flash (at45 st1) (last_page st1))" by simp
    note pv = page_view_valid[OF w1 this]
    have kl: "k < length out" using k assms(4) by simp
    from read_loop_success_bytes[OF rl w1 b1 bo, of k] kl k
    have "out' ! k = hw st1 (addr + k)" by (simp add: pv hw_def)
    also have "\<dots> = buf ! k"
      using program_loop_success_bytes[OF pl assms(1,2) b, of "addr + k"] k by simp
    finally show ?thesis .
  qed
  then have "take sz out' = take sz buf"
    using len assms(3,4) by (intro nth_take_lemma) simp_all
  then show ?thesis using p r by blast
qed

theorem round_trip_witness:
  "well_formed dev0 \<and> 3 + 6 \<le> totalsize dev0 \<and> fault_free (at45 dev0) \<and>
   (\<exists>st1 out' st2.
      program dev0 [1, 2, 3, 4, 5, 6] 3 6 = Some (BD_ERROR_OK, st1) \<and>
      read st1 [0, 0, 0, 0, 0, 0, 0] 3 6 = Some (BD_ERROR_OK, out', st2) \<and>
      take 6 out' = [1, 2, 3, 4, 5, 6])"
proof -
  have t: "3 + 6 \<le> totalsize dev0" by (simp add: eval_defs)
  from round_trip[OF dev0_wf t _ _ dev0_fault_free, of "[1, 2, 3, 4, 5, 6]" "[0, 0, 0, 0, 0, 0, 0]"]
  show ?thesis using dev0_wf t dev0_fault_free by simp
qed

section \<open>A successful erase\<close>

lemma erase_loop_success:
  assumes "erase_loop st ix e = Some (0, st')" "ix \<le> Suc e" "e < 2 ^ 32 - 1"
  shows "flash (at45 st') = (\<lambda>p. if ix \<le> p \<and> p \<le> e then pb st else flash (at45 st) p) \<and>
         calls (at45 st') = calls (at45 st) @ map (\<lambda>p. WritePage p (pb st)) [ix ..< Suc e] \<and>
         last_page st' = last_page st \<and> pagebuffer st' = pagebuffer st"
  using assms
proof (induction "Suc e - ix" arbitrary: st ix rule: less_induct)
  case less
  show ?case
  proof (cases "ix \<le> e")
    case False
    then have "erase_loop st ix e = Some (0, st)" by (simp add: erase_loop_done)
    with less.prems(1) have "st' = st" by simp
    moreover have "[ix ..< Suc e] = []" using False by simp
    moreover have "flash (at45 st) = (\<lambda>p. if ix \<le> p \<and> p \<le> e then pb st else flash (at45 st) p)"
      using False by (intro ext) auto
    ultimately show ?thesis by simp
  next
    case True
    obtain r chip where w: "write_page (at45 st) (pb st) ix = (r, chip)"
      by (cases "write_page (at45 st) (pb st) ix")
    let ?st1 = "st\<lparr>at45 := chip\<rparr>"
    have sz: "size_t (ix + 1) = ix + 1" using True less.prems(3) by (intro size_t_id) simp
    have r0: "r = 0"
    proof (rule ccontr)
      assume "r \<noteq> 0"
      then have "erase_loop st ix e = Some (r, ?st1)"
        using True w by (subst erase_loop.simps) simp
      with less.prems(1) \<open>r \<noteq> 0\<close> show False by simp
    qed
    have "erase_loop st ix e = erase_loop ?st1 (ix + 1) e"
      using True w r0 sz by (subst erase_loop.simps) simp
    with less.prems(1) have run: "erase_loop ?st1 (ix + 1) e = Some (0, st')" by simp
    from w r0 have fl: "flash chip = (flash (at45 st))(ix := pb st)"
      and cl: "calls chip = calls (at45 st) @ [WritePage ix (pb st)]"
      by (auto simp: write_page_def Let_def)
    have pb1: "pb ?st1 = pb st" by (simp add: pb_def)
    have m: "Suc e - (ix + 1) < Suc e - ix" using True by simp
    have le: "ix + 1 \<le> Suc e" using True by simp
    have at1: "at45 ?st1 = chip" "last_page ?st1 = last_page st" "pagebuffer ?st1 = pagebuffer st"
      by simp_all
    note ih = less.hyps[OF m run le less.prems(3), unfolded pb1 at1]
    from ih have f': "flash (at45 st') = (\<lambda>p. if ix + 1 \<le> p \<and> p \<le> e then pb st else flash chip p)"
      by (rule conjunct1)
    from ih have c': "calls (at45 st') = calls chip @ map (\<lambda>p. WritePage p (pb st)) [ix + 1 ..< Suc e]"
      by (elim conjE)
    from ih have o: "last_page st' = last_page st \<and> pagebuffer st' = pagebuffer st"
      by (elim conjE) (rule conjI)
    have "flash (at45 st') = (\<lambda>p. if ix \<le> p \<and> p \<le> e then pb st else flash (at45 st) p)"
      unfolding f' fl using True by (intro ext) auto
    moreover have "[ix ..< Suc e] = ix # [ix + 1 ..< Suc e]"
      using True by (simp add: upt_conv_Cons)
    then have "calls (at45 st') = calls (at45 st) @ map (\<lambda>p. WritePage p (pb st)) [ix ..< Suc e]"
      using c' cl by simp
    ultimately show ?thesis using o by simp
  qed
qed



lemma erase_entry:
  assumes "well_formed st" "addr + sz \<le> totalsize st"
  shows "erase st addr sz =
     (case erase_loop (st\<lparr>pagebuffer := Some (replicate (pagesize st) 0xff)\<rparr>)
             (addr div pagesize st) ((addr + sz) div pagesize st) of
        None \<Rightarrow> None
      | Some (r, st2) \<Rightarrow>
          if r \<noteq> 0 then Some (r, st2)
          else Some (BD_ERROR_OK,
                 if addr div pagesize st \<le> last_page st2 \<and> last_page st2 \<le> (addr + sz) div pagesize st
                 then st2\<lparr>last_page := 0xffffffff\<rparr> else st2))"
proof -
  from assms have a: "addr + sz < 2 ^ 31" and ps: "pagesize st < 2 ^ 32" by (simp_all add: well_formed_def)
  have "addr div pagesize st \<le> addr" by simp
  then have "addr div pagesize st < 2 ^ 31" using a by linarith
  then have s: "addr div pagesize st < 2 ^ 32" by simp
  have "(addr + sz) div pagesize st \<le> addr + sz" by simp
  then have "(addr + sz) div pagesize st < 2 ^ 31" using a by linarith
  then have e: "(addr + sz) div pagesize st < 2 ^ 32" by simp
  have c: "u32 (addr div pagesize st) = addr div pagesize st"
    "size_t (addr div pagesize st) = addr div pagesize st"
    "u32 ((addr + sz) div pagesize st) = (addr + sz) div pagesize st"
    "size_t (pagesize st) = pagesize st"
    using s e ps by (simp_all add: u32_id size_t_id)
  from wf_pb[OF assms(1)] have "memset (pb st) 0xff (pagesize st) = replicate (pagesize st) 0xff"
    by (intro memset_whole) simp
  then show ?thesis
    using wf_pb[OF assms(1)] by (simp add: erase_def entry_conversions[OF assms] c Let_def)
qed






text \<open>
  The other case of one page more: \<open>erase\<close> of size 0 at the unaligned address 5
  overlaps no page and writes page 1, the page with index \<open>5 div 4\<close>.
\<close>

lemma erase_empty_unaligned:
  "(5 + 0) mod pagesize dev0 \<noteq> 0 \<and> pages_of (pagesize dev0) 5 0 = [] \<and>
   (\<exists>st'. erase dev0 5 0 = Some (BD_ERROR_OK, st') \<and>
      new_calls (at45 dev0) (at45 st') = [WritePage 1 [255, 255, 255, 255]])"
  by (simp add: eval_defs pages_of_def new_calls_def erase_loop.simps)


section \<open>The pages a request touches\<close>

lemma concat_map_single: "concat (map (\<lambda>p. [f p]) xs) = map f xs"
  by (induction xs) simp_all

lemma perform_read_success:
  assumes "well_formed st" "in_bounds st (Read b a s)" "perform st (Read b a s) = Some (BD_ERROR_OK, st')"
  obtains out' where "read_loop st b 0 a s = Some (0, out', st')"
    "a + s \<le> totalsize st" "0 + s \<le> length b"
proof -
  from assms(2) have bd: "a + s \<le> totalsize st" "0 + s \<le> length b" by (simp_all add: in_bounds_def)
  from assms(3) obtain out' where "read st b a s = Some (BD_ERROR_OK, out', st')" by auto
  then have "read_loop st b 0 a s = Some (0, out', st')"
    by (simp add: read_entry[OF assms(1) bd(1)] BD_ERROR_OK_def)
  then show ?thesis using bd that by blast
qed

lemma perform_program_success:
  assumes "well_formed st" "in_bounds st (Program b a s)"
    and "perform st (Program b a s) = Some (BD_ERROR_OK, st')"
  shows "program_loop st b 0 a s = Some (0, st')" "a + s \<le> totalsize st" "0 + s \<le> length b"
proof -
  from assms(2) show bd: "a + s \<le> totalsize st" "0 + s \<le> length b"
    by (simp_all add: in_bounds_def)
  from assms(3) show "program_loop st b 0 a s = Some (0, st')"
    by (simp add: program_entry[OF assms(1) bd(1)] BD_ERROR_OK_def)
qed

text \<open>
  C8 (multi-page span), for a request that succeeds. On an initialised translator, a
  \<open>read\<close> or \<open>program\<close> of an in-bounds range that returns \<open>BD_ERROR_OK\<close> issues its
  primitive calls page by page over exactly the pages \<open>addr div pagesize\<close> to
  \<open>(addr + sz - 1) div pagesize\<close>, in ascending order: one load per page (and for
  \<open>program\<close> one store after it), except that the first page is not loaded when it is
  the page \<open>last_page\<close> names.
\<close>

theorem multi_page_span:
  assumes "well_formed st" "in_bounds st req" "perform st req = Some (BD_ERROR_OK, st')"
  shows "map access_of (new_calls (at45 st) (at45 st')) =
           expected_accesses (pagesize st) (last_page st) req"
proof (cases req)
  case (Read b a s)
  from perform_read_success[OF assms[unfolded Read]]
  obtain out' where l: "read_loop st b 0 a s = Some (0, out', st')"
    and bd: "a + s \<le> totalsize st" "0 + s \<le> length b" by blast
  have pa: "page_accesses (Read b a s) = (\<lambda>p. [Load p])" by (intro ext) simp
  have ao: "access_of \<circ> ReadPage = Load" by (intro ext) simp
  show ?thesis
    unfolding read_loop_success_calls[OF l assms(1) bd]
    by (simp add: Read expected_accesses_def pa ao concat_map_single map_tl)
next
  case (Program b a s)
  note p = perform_program_success[OF assms[unfolded Program]]
  have "page_accesses (Program b a s) = (\<lambda>p. [Load p, Store p])" by (intro ext) simp
  then show ?thesis
    unfolding program_loop_success_accesses[OF p(1) assms(1) p(2,3)]
    by (simp add: Program expected_accesses_def)
qed

theorem multi_page_span_witness:
  "well_formed dev0 \<and> in_bounds dev0 (Program [1, 2, 3, 4, 5, 6, 7, 8, 9] 3 9) \<and>
   pages_of (pagesize dev0) 3 9 = [0, 1, 2] \<and>
   (\<exists>st'. perform dev0 (Program [1, 2, 3, 4, 5, 6, 7, 8, 9] 3 9) = Some (BD_ERROR_OK, st') \<and>
      map access_of (new_calls (at45 dev0) (at45 st')) =
        [Load 0, Store 0, Load 1, Store 1, Load 2, Store 2])"
proof -
  have b: "in_bounds dev0 (Program [1, 2, 3, 4, 5, 6, 7, 8, 9] 3 9)"
    by (simp add: in_bounds_def eval_defs)
  have v: "pagesize dev0 = 4" "last_page dev0 = 0xffffffff" "pages_of 4 3 9 = [0, 1, 2]"
    by (simp_all add: eval_defs pages_of_def upt_conv_Cons)
  have "\<exists>st'. perform dev0 (Program [1, 2, 3, 4, 5, 6, 7, 8, 9] 3 9) = Some (BD_ERROR_OK, st')"
    by (simp add: eval_defs program_loop.simps)
  then obtain st' where
    p: "perform dev0 (Program [1, 2, 3, 4, 5, 6, 7, 8, 9] 3 9) = Some (BD_ERROR_OK, st')" by blast
  from multi_page_span[OF dev0_wf b p]
  show ?thesis using dev0_wf b p by (simp add: v expected_accesses_def)
qed

text \<open>
  C8 as the claim states it, for every \<open>read\<close> or \<open>program\<close>, fails when a primitive
  call fails: the \<open>read\<close> of 12 bytes at address 0 spans pages 0 to 2, the load of page
  1 fails with code 5, and page 2 is never touched.
\<close>

theorem multi_page_span_counterexample:
  "well_formed dev1 \<and> in_bounds dev1 (Read [0, 0, 0, 0, 0, 0, 0, 0, 0, 0, 0, 0] 0 12) \<and>
   pages_of (pagesize dev1) 0 12 = [0, 1, 2] \<and>
   (\<exists>st'. perform dev1 (Read [0, 0, 0, 0, 0, 0, 0, 0, 0, 0, 0, 0] 0 12) = Some (5, st') \<and>
      new_calls (at45 dev1) (at45 st') = [ReadPage 0, ReadPage 1])"
proof -
  have "pages_of (pagesize dev1) 0 12 = [0, 1, 2]"
    by (simp add: eval_defs pages_of_def upt_conv_Cons)
  moreover have "in_bounds dev1 (Read [0, 0, 0, 0, 0, 0, 0, 0, 0, 0, 0, 0] 0 12)"
    by (simp add: in_bounds_def eval_defs)
  moreover have "\<exists>st'. perform dev1 (Read [0, 0, 0, 0, 0, 0, 0, 0, 0, 0, 0, 0] 0 12) = Some (5, st') \<and>
      new_calls (at45 dev1) (at45 st') = [ReadPage 0, ReadPage 1]"
    by (simp add: new_calls_def eval_defs read_loop.simps)
  ultimately show ?thesis using dev1_wf by simp
qed

section \<open>Reuse of the cached page\<close>

lemma single_page_fits:
  fixes addr :: nat
  assumes "0 < ps" "0 < bl" "(addr + bl - 1) div ps = addr div ps"
  shows "bl \<le> ps - addr mod ps"
proof (rule ccontr)
  assume "\<not> bl \<le> ps - addr mod ps"
  then have "ps - addr mod ps < bl" by simp
  from last_page_ge[OF assms(1) this] assms(3) show False by simp
qed

lemma chunk_single: "bl \<le> ps - addr mod ps \<Longrightarrow> chunk ps addr bl = bl"
  by (simp add: chunk_def)

text \<open>The state a successful non-empty request leaves.\<close>

lemma perform_success_state:
  assumes "well_formed st" "in_bounds st req" "0 < req_size req"
    and "perform st req = Some (BD_ERROR_OK, st')"
  shows "well_formed st' \<and> pagesize st' = pagesize st \<and> totalsize st' = totalsize st \<and>
         last_page st' = (req_addr req + req_size req - 1) div pagesize st"
proof (cases req)
  case (Read b a s)
  from perform_read_success[OF assms(1,2,4)[unfolded Read]]
  obtain out' where l: "read_loop st b 0 a s = Some (0, out', st')"
    and bd: "a + s \<le> totalsize st" "0 + s \<le> length b" by blast
  from read_loop_success_frame[OF l assms(1) bd] read_loop_success_cache[OF l assms(1) bd]
    assms(3) Read
  show ?thesis by simp
next
  case (Program b a s)
  note p = perform_program_success[OF assms(1,2,4)[unfolded Program]]
  from program_loop_success_frame[OF p(1) assms(1) p(2,3)]
    program_loop_success_cache[OF p(1) assms(1) p(2,3)] assms(3) Program
  show ?thesis by simp
qed

text \<open>The first iteration, whatever its outcome.\<close>

lemma read_step_cached:
  assumes "well_formed st" "0 < bl" "addr + bl \<le> totalsize st" "pos + bl \<le> length buffer"
    and "last_page st = addr div pagesize st"
  shows "\<exists>st1 buffer1. read_step st buffer pos addr bl =
            Inr (st1, buffer1, pos + chunk (pagesize st) addr bl,
                 addr + chunk (pagesize st) addr bl, bl - chunk (pagesize st) addr bl) \<and>
           calls (at45 st1) = calls (at45 st)"
  using assms(5)
  by (simp add: read_step_def step_conversions[OF assms(1,3)] Let_def cong: if_cong)

lemma read_step_uncached:
  assumes "well_formed st" "0 < bl" "addr + bl \<le> totalsize st" "pos + bl \<le> length buffer"
    and "last_page st \<noteq> addr div pagesize st"
  shows "(\<exists>r st'. read_step st buffer pos addr bl = Inl (r, buffer, st') \<and>
            calls (at45 st') = calls (at45 st) @ [ReadPage (addr div pagesize st)]) \<or>
         (\<exists>st1 buffer1 pos1 addr1 bl1.
            read_step st buffer pos addr bl = Inr (st1, buffer1, pos1, addr1, bl1) \<and>
            calls (at45 st1) = calls (at45 st) @ [ReadPage (addr div pagesize st)])"
  using assms(5)
  by (simp add: read_step_def step_conversions[OF assms(1,3)] Let_def read_page_def
      cong: if_cong)

lemma program_step_cached:
  assumes "well_formed st" "0 < bl" "addr + bl \<le> totalsize st" "pos + bl \<le> length buffer"
    and "last_page st = addr div pagesize st"
  shows "(\<exists>r st' w. program_step st buffer pos addr bl = Inl (r, st') \<and>
            calls (at45 st') = calls (at45 st) @ [WritePage (addr div pagesize st) w]) \<or>
         (\<exists>st1 w. program_step st buffer pos addr bl =
            Inr (st1, pos + chunk (pagesize st) addr bl,
                 addr + chunk (pagesize st) addr bl, bl - chunk (pagesize st) addr bl) \<and>
            calls (at45 st1) = calls (at45 st) @ [WritePage (addr div pagesize st) w])"
  using assms(5)
  by (simp add: program_step_def step_conversions[OF assms(1,3)] Let_def write_page_def
      cong: if_cong)

lemma program_step_uncached:
  assumes "well_formed st" "0 < bl" "addr + bl \<le> totalsize st" "pos + bl \<le> length buffer"
    and "last_page st \<noteq> addr div pagesize st"
  shows "(\<exists>r st' cs. program_step st buffer pos addr bl = Inl (r, st') \<and>
            calls (at45 st') = calls (at45 st) @ ReadPage (addr div pagesize st) # cs) \<or>
         (\<exists>st1 pos1 addr1 bl1 cs.
            program_step st buffer pos addr bl = Inr (st1, pos1, addr1, bl1) \<and>
            calls (at45 st1) = calls (at45 st) @ ReadPage (addr div pagesize st) # cs)"
  using assms(5)
  by (simp add: program_step_def step_conversions[OF assms(1,3)] Let_def read_page_def
      write_page_def cong: if_cong)

text \<open>A request within the page \<open>last_page\<close> names issues no load.\<close>

lemma perform_cached_single:
  assumes "well_formed st" "in_bounds st req" "single_page (pagesize st) (last_page st) req"
  shows "\<exists>r st'. perform st req = Some (r, st') \<and>
           (\<forall>q. ReadPage q \<notin> set (new_calls (at45 st) (at45 st')))"
proof -
  let ?ps = "pagesize st"
  let ?a = "req_addr req" and ?s = "req_size req" and ?b = "req_buffer req"
  have ps: "0 < ?ps" using assms(1) by (simp add: well_formed_def)
  from assms(2) have bd: "?a + ?s \<le> totalsize st" "0 + ?s \<le> length ?b"
    by (simp_all add: in_bounds_def)
  from assms(3) have s0: "0 < ?s" and lp: "last_page st = ?a div ?ps"
    and one: "(?a + ?s - 1) div ?ps = ?a div ?ps" by (simp_all add: single_page_def)
  have c: "chunk ?ps ?a ?s = ?s" by (rule chunk_single[OF single_page_fits[OF ps s0 one]])
  show ?thesis
  proof (cases req)
    case (Read b a s)
    from read_step_cached[OF assms(1) s0 bd lp] c
    obtain st1 buffer1 where
      s: "read_step st ?b 0 ?a ?s = Inr (st1, buffer1, 0 + ?s, ?a + ?s, 0)"
      and cs: "calls (at45 st1) = calls (at45 st)" by auto
    have "read_loop st ?b 0 ?a ?s = Some (BD_ERROR_OK, buffer1, st1)"
      using s0 s by (subst read_loop.simps) (simp add: read_loop_zero)
    then have "perform st req = Some (BD_ERROR_OK, st1)"
      using Read read_entry[OF assms(1) bd(1), of ?b] by simp
    moreover have "new_calls (at45 st) (at45 st1) = []" using cs by (simp add: new_calls_def)
    ultimately show ?thesis by simp
  next
    case (Program b a s)
    from program_step_cached[OF assms(1) s0 bd lp] c
    consider (fail) r st' w where "program_step st ?b 0 ?a ?s = Inl (r, st')"
        "calls (at45 st') = calls (at45 st) @ [WritePage (?a div ?ps) w]"
      | (ok) st1 w where "program_step st ?b 0 ?a ?s = Inr (st1, 0 + ?s, ?a + ?s, 0)"
        "calls (at45 st1) = calls (at45 st) @ [WritePage (?a div ?ps) w]"
      by auto
    then show ?thesis
    proof cases
      case fail
      have "program_loop st ?b 0 ?a ?s = Some (r, st')"
        using s0 fail(1) by (subst program_loop.simps) simp
      then have "perform st req = Some (r, st')"
        using Program program_entry[OF assms(1) bd(1), of ?b] by simp
      moreover have "new_calls (at45 st) (at45 st') = [WritePage (?a div ?ps) w]"
        by (rule new_calls_eq[OF fail(2)])
      ultimately show ?thesis by simp
    next
      case ok
      have "program_loop st ?b 0 ?a ?s = Some (BD_ERROR_OK, st1)"
        using s0 ok(1) by (subst program_loop.simps) (simp add: program_loop_zero)
      then have "perform st req = Some (BD_ERROR_OK, st1)"
        using Program program_entry[OF assms(1) bd(1), of ?b] by simp
      moreover have "new_calls (at45 st) (at45 st1) = [WritePage (?a div ?ps) w]"
        by (rule new_calls_eq[OF ok(2)])
      ultimately show ?thesis by simp
    qed
  qed
qed

text \<open>A non-empty request that starts on another page loads that page first.\<close>

lemma perform_uncached_first:
  assumes "well_formed st" "in_bounds st req" "0 < req_size req"
    and "last_page st \<noteq> req_addr req div pagesize st"
  shows "\<exists>r st' cs. perform st req = Some (r, st') \<and>
           new_calls (at45 st) (at45 st') = ReadPage (req_addr req div pagesize st) # cs"
proof -
  let ?ps = "pagesize st"
  let ?a = "req_addr req" and ?s = "req_size req" and ?b = "req_buffer req"
  from assms(2) have bd: "?a + ?s \<le> totalsize st" "0 + ?s \<le> length ?b"
    by (simp_all add: in_bounds_def)
  note g = wf_geom_ok[OF assms(1)]
  show ?thesis
  proof (cases req)
    case (Read b a s)
    from read_loop_flash[OF g, of ?b 0 ?a ?s]
    obtain r out' st' where l: "read_loop st ?b 0 ?a ?s = Some (r, out', st')" by blast
    then have p: "perform st req = Some (r, st')"
      using Read read_entry[OF assms(1) bd(1), of ?b] by simp
    from read_step_uncached[OF assms(1,3) bd assms(4)]
    consider (fail) r1 st1 where "read_step st ?b 0 ?a ?s = Inl (r1, ?b, st1)"
        "calls (at45 st1) = calls (at45 st) @ [ReadPage (?a div ?ps)]"
      | (ok) st1 buffer1 pos1 addr1 bl1 where
        "read_step st ?b 0 ?a ?s = Inr (st1, buffer1, pos1, addr1, bl1)"
        "calls (at45 st1) = calls (at45 st) @ [ReadPage (?a div ?ps)]"
      by blast
    then have "\<exists>cs. new_calls (at45 st) (at45 st') = ReadPage (?a div ?ps) # cs"
    proof cases
      case fail
      have "read_loop st ?b 0 ?a ?s = Some (r1, ?b, st1)"
        using assms(3) fail(1) by (subst read_loop.simps) simp
      with l have "st' = st1" by simp
      then show ?thesis using new_calls_eq[OF fail(2)] by simp
    next
      case ok
      have "read_loop st ?b 0 ?a ?s = read_loop st1 buffer1 pos1 addr1 bl1"
        using assms(3) ok(1) by (subst read_loop.simps) simp
      with l have "read_loop st1 buffer1 pos1 addr1 bl1 = Some (r, out', st')" by simp
      from new_calls_append[OF ok(2) read_loop_calls[OF this]] show ?thesis by simp
    qed
    then show ?thesis using p by blast
  next
    case (Program b a s)
    from program_loop_total[OF g, of ?b 0 ?a ?s]
    obtain r st' where l: "program_loop st ?b 0 ?a ?s = Some (r, st')" by force
    then have p: "perform st req = Some (r, st')"
      using Program program_entry[OF assms(1) bd(1), of ?b] by simp
    from program_step_uncached[OF assms(1,3) bd assms(4)]
    consider (fail) r1 st1 cs where "program_step st ?b 0 ?a ?s = Inl (r1, st1)"
        "calls (at45 st1) = calls (at45 st) @ ReadPage (?a div ?ps) # cs"
      | (ok) st1 pos1 addr1 bl1 cs where
        "program_step st ?b 0 ?a ?s = Inr (st1, pos1, addr1, bl1)"
        "calls (at45 st1) = calls (at45 st) @ ReadPage (?a div ?ps) # cs"
      by blast
    then have "\<exists>cs. new_calls (at45 st) (at45 st') = ReadPage (?a div ?ps) # cs"
    proof cases
      case fail
      have "program_loop st ?b 0 ?a ?s = Some (r1, st1)"
        using assms(3) fail(1) by (subst program_loop.simps) simp
      with l have "st' = st1" by simp
      then show ?thesis using new_calls_eq[OF fail(2)] by simp
    next
      case ok
      have "program_loop st ?b 0 ?a ?s = program_loop st1 ?b pos1 addr1 bl1"
        using assms(3) ok(1) by (subst program_loop.simps) simp
      with l have "program_loop st1 ?b pos1 addr1 bl1 = Some (r, st')" by simp
      from new_calls_append[OF ok(2) program_loop_calls[OF this]] show ?thesis by simp
    qed
    then show ?thesis using p by blast
  qed
qed

text \<open>
  C6 (cache reuse), after a first call that succeeds. On an initialised translator,
  when a \<open>read\<close> or \<open>program\<close> of a non-empty in-bounds range within the single page \<open>p\<close>
  has returned \<open>BD_ERROR_OK\<close>: a following \<open>read\<close> or \<open>program\<close> of a range within the
  same page returns without any \<open>read_page\<close> call; and a following non-empty \<open>read\<close>
  or \<open>program\<close> whose range starts on a different page issues, as its first primitive
  call, \<open>read_page\<close> for that page.
\<close>

theorem cache_reuse:
  assumes "well_formed st" "in_bounds st req1" "single_page (pagesize st) p req1"
    and "perform st req1 = Some (BD_ERROR_OK, st1)"
  shows "(in_bounds st req2 \<and> single_page (pagesize st) p req2 \<longrightarrow>
            (\<exists>r st2. perform st1 req2 = Some (r, st2) \<and>
               (\<forall>q. ReadPage q \<notin> set (new_calls (at45 st1) (at45 st2))))) \<and>
         (in_bounds st req3 \<and> 0 < req_size req3 \<and> req_addr req3 div pagesize st \<noteq> p \<longrightarrow>
            (\<exists>r st3 cs. perform st1 req3 = Some (r, st3) \<and>
               new_calls (at45 st1) (at45 st3) = ReadPage (req_addr req3 div pagesize st) # cs))"
proof -
  from assms(3) have s1: "0 < req_size req1"
    and e1: "(req_addr req1 + req_size req1 - 1) div pagesize st = p"
    by (simp_all add: single_page_def)
  from perform_success_state[OF assms(1,2) s1 assms(4)] e1
  have w1: "well_formed st1" and g: "pagesize st1 = pagesize st" "totalsize st1 = totalsize st"
    and lp: "last_page st1 = p" by simp_all
  have ib: "in_bounds st1 req = in_bounds st req" for req by (simp add: in_bounds_def g)
  show ?thesis
  proof (intro conjI impI)
    assume "in_bounds st req2 \<and> single_page (pagesize st) p req2"
    then have "in_bounds st1 req2" "single_page (pagesize st1) (last_page st1) req2"
      by (simp_all add: ib g lp)
    from perform_cached_single[OF w1 this]
    show "\<exists>r st2. perform st1 req2 = Some (r, st2) \<and>
               (\<forall>q. ReadPage q \<notin> set (new_calls (at45 st1) (at45 st2)))" .
  next
    assume "in_bounds st req3 \<and> 0 < req_size req3 \<and> req_addr req3 div pagesize st \<noteq> p"
    then have "in_bounds st1 req3" "0 < req_size req3"
      "last_page st1 \<noteq> req_addr req3 div pagesize st1"
      by (auto simp: ib g lp)
    from perform_uncached_first[OF w1 this]
    show "\<exists>r st3 cs. perform st1 req3 = Some (r, st3) \<and>
               new_calls (at45 st1) (at45 st3) = ReadPage (req_addr req3 div pagesize st) # cs"
      by (simp add: g)
  qed
qed

theorem cache_reuse_witness:
  "well_formed dev0 \<and>
   in_bounds dev0 (Program [1, 2] 5 2) \<and> single_page (pagesize dev0) 1 (Program [1, 2] 5 2) \<and>
   in_bounds dev0 (Read [0, 0, 0] 4 3) \<and> single_page (pagesize dev0) 1 (Read [0, 0, 0] 4 3) \<and>
   in_bounds dev0 (Read [0] 9 1) \<and> 0 < req_size (Read [0] 9 1) \<and>
   req_addr (Read [0] 9 1) div pagesize dev0 \<noteq> 1 \<and>
   (\<exists>st1. perform dev0 (Program [1, 2] 5 2) = Some (BD_ERROR_OK, st1) \<and>
      (\<exists>r st2. perform st1 (Read [0, 0, 0] 4 3) = Some (r, st2) \<and>
         new_calls (at45 st1) (at45 st2) = []) \<and>
      (\<exists>r st3. perform st1 (Read [0] 9 1) = Some (r, st3) \<and>
         new_calls (at45 st1) (at45 st3) = [ReadPage 2]))"
proof -
  have h: "in_bounds dev0 (Program [1, 2] 5 2)" "single_page (pagesize dev0) 1 (Program [1, 2] 5 2)"
    "in_bounds dev0 (Read [0, 0, 0] 4 3)" "single_page (pagesize dev0) 1 (Read [0, 0, 0] 4 3)"
    "in_bounds dev0 (Read [0] 9 1)" "0 < req_size (Read [0] 9 1)"
    "req_addr (Read [0] 9 1) div pagesize dev0 \<noteq> 1"
    by (simp_all add: in_bounds_def single_page_def eval_defs)
  have "\<exists>st1. perform dev0 (Program [1, 2] 5 2) = Some (BD_ERROR_OK, st1)"
    by (simp add: eval_defs program_loop.simps)
  then obtain st1 where p: "perform dev0 (Program [1, 2] 5 2) = Some (BD_ERROR_OK, st1)" by blast
  note t = cache_reuse[OF dev0_wf h(1,2) p, of "Read [0, 0, 0] 4 3" "Read [0] 9 1"]
  from t h obtain r2 st2 where
    r2: "perform st1 (Read [0, 0, 0] 4 3) = Some (r2, st2)"
    "\<forall>q. ReadPage q \<notin> set (new_calls (at45 st1) (at45 st2))" by blast
  from t h obtain r3 st3 cs where
    r3: "perform st1 (Read [0] 9 1) = Some (r3, st3)"
    "new_calls (at45 st1) (at45 st3) = ReadPage (req_addr (Read [0] 9 1) div pagesize dev0) # cs"
    by blast
  have e: "Option.bind (perform dev0 (Program [1, 2] 5 2)) (\<lambda>(r, st1).
      Option.bind (perform st1 (Read [0, 0, 0] 4 3)) (\<lambda>(r2, st2).
      Option.bind (perform st1 (Read [0] 9 1)) (\<lambda>(r3, st3).
        Some (new_calls (at45 st1) (at45 st2), new_calls (at45 st1) (at45 st3)))))
      = Some ([], [ReadPage 2])"
    by (simp add: eval_defs new_calls_def program_loop.simps read_loop.simps)
  have "Some (new_calls (at45 st1) (at45 st2), new_calls (at45 st1) (at45 st3))
          = Some ([], [ReadPage 2])"
    using e unfolding p r2(1) r3(1) Option.bind.simps prod.case .
  then have "new_calls (at45 st1) (at45 st2) = []" "new_calls (at45 st1) (at45 st3) = [ReadPage 2]"
    by simp_all
  then show ?thesis using dev0_wf h p r2(1) r3(1) by blast
qed

text \<open>
  C6 as the claim states it, for every two consecutive calls, fails when the first
  call fails: on the device whose first primitive call fails, the \<open>read\<close> of two bytes
  of page 0 returns code 5, and the next \<open>read\<close> of the same two bytes issues
  \<open>read_page\<close> for page 0.
\<close>

theorem cache_reuse_counterexample:
  "well_formed dev2 \<and> in_bounds dev2 (Read [0, 0] 0 2) \<and> single_page (pagesize dev2) 0 (Read [0, 0] 0 2) \<and>
   (\<exists>st1 st2. perform dev2 (Read [0, 0] 0 2) = Some (5, st1) \<and>
      perform st1 (Read [0, 0] 0 2) = Some (BD_ERROR_OK, st2) \<and>
      new_calls (at45 st1) (at45 st2) = [ReadPage 0])"
proof -
  have "well_formed dev2" by (simp add: well_formed_def eval_defs)
  moreover have "in_bounds dev2 (Read [0, 0] 0 2)" "single_page (pagesize dev2) 0 (Read [0, 0] 0 2)"
    by (simp_all add: in_bounds_def single_page_def eval_defs)
  moreover have "\<exists>st1 st2. perform dev2 (Read [0, 0] 0 2) = Some (5, st1) \<and>
      perform st1 (Read [0, 0] 0 2) = Some (BD_ERROR_OK, st2) \<and>
      new_calls (at45 st1) (at45 st2) = [ReadPage 0]"
    by (simp add: eval_defs new_calls_def read_loop.simps)
  ultimately show ?thesis by simp
qed

section \<open>Where the cache invariant holds\<close>

text \<open>
  The two claims that fail after \<open>erase\<close> hold of \<open>read\<close> and \<open>program\<close> alone: a
  successful non-empty \<open>program\<close> establishes the invariant, a successful \<open>read\<close>
  keeps it, and \<open>program\<close> on a valid cache changes the bytes of its range and no
  other byte of the flash.
\<close>

lemma cache_valid_page_view:
  assumes "well_formed st" "cache_valid st" "p < 2 ^ 31"
  shows "page_view st p = flash (at45 st) p"
  using assms by (auto simp: page_view_def cache_valid_def pb_def)

lemma program_establishes_cache_valid:
  assumes "well_formed st" "addr + sz \<le> totalsize st" "sz \<le> length buf" "0 < sz"
    and "program st buf addr sz = Some (BD_ERROR_OK, st')"
  shows "cache_valid st'"
proof -
  have pl: "program_loop st buf 0 addr sz = Some (0, st')"
    using assms(5) by (simp add: program_entry[OF assms(1,2)] BD_ERROR_OK_def)
  have b: "0 + sz \<le> length buf" using assms(3) by simp
  from program_loop_success_cache[OF pl assms(1,2) b] assms(4)
  show ?thesis by (simp add: cache_valid_def)
qed

lemma read_keeps_cache_valid:
  assumes "well_formed st" "addr + sz \<le> totalsize st" "sz \<le> length out" "cache_valid st"
    and "read st out addr sz = Some (BD_ERROR_OK, out', st')"
  shows "cache_valid st'"
proof (cases "sz = 0")
  case True
  from assms(1) obtain b where "pagebuffer st = Some b" by (auto simp: well_formed_def)
  then have "read st out addr 0 = Some (BD_ERROR_OK, out, st)"
    by (simp add: read_def size_t_def read_loop_zero)
  with assms(5) True have "st' = st" by simp
  then show ?thesis using assms(4) by simp
next
  case False
  have rl: "read_loop st out 0 addr sz = Some (0, out', st')"
    using assms(5) by (simp add: read_entry[OF assms(1,2)] BD_ERROR_OK_def)
  have b: "0 + sz \<le> length out" using assms(3) by simp
  have "addr div pagesize st \<le> addr" by simp
  moreover have "addr < 2 ^ 31" using assms(1,2) by (simp add: well_formed_def)
  ultimately have "addr div pagesize st < 2 ^ 31" by linarith
  note pv = cache_valid_page_view[OF assms(1,4) this]
  from read_loop_success_frame[OF rl assms(1,2) b]
  have f: "flash (at45 st') = flash (at45 st)" by simp
  from read_loop_success_cache[OF rl assms(1,2) b] False
  have "pagebuffer st' = Some (flash (at45 st) (last_page st'))"
    by (auto simp: pv)
  then show ?thesis by (simp add: cache_valid_def f)
qed

lemma program_isolation_valid_cache:
  assumes "well_formed st" "addr + sz \<le> totalsize st" "sz \<le> length buf" "cache_valid st"
    and "program st buf addr sz = Some (BD_ERROR_OK, st')"
  shows "hw st' a = (if addr \<le> a \<and> a < addr + sz then buf ! (a - addr) else hw st a)"
proof -
  have pl: "program_loop st buf 0 addr sz = Some (0, st')"
    using assms(5) by (simp add: program_entry[OF assms(1,2)] BD_ERROR_OK_def)
  have b: "0 + sz \<le> length buf" using assms(3) by simp
  have "addr div pagesize st \<le> addr" by simp
  moreover have "addr < 2 ^ 31" using assms(1,2) by (simp add: well_formed_def)
  ultimately have "addr div pagesize st < 2 ^ 31" by linarith
  note pv = cache_valid_page_view[OF assms(1,4) this]
  show ?thesis
    using program_loop_success_bytes[OF pl assms(1,2) b, of a] pv by (auto simp: hw_def)
qed

text \<open>
  After a successful \<open>erase\<close> the page buffer is all \<open>0xff\<close>, and \<open>last_page\<close> is reset
  exactly when it named an erased page: a page outside the erased range stays named,
  with a buffer that is not its contents.
\<close>

lemma erase_cache:
  assumes "well_formed st" "addr + sz \<le> totalsize st" "erase st addr sz = Some (BD_ERROR_OK, st')"
  shows "pagebuffer st' = Some (replicate (pagesize st) 0xff)"
    and "last_page st' =
           (if addr div pagesize st \<le> last_page st \<and> last_page st \<le> (addr + sz) div pagesize st
            then 0xffffffff else last_page st)"
proof -
  let ?ps = "pagesize st"
  let ?st1 = "st\<lparr>pagebuffer := Some (replicate ?ps 0xff)\<rparr>"
  from assms(3) obtain st2 where
    l: "erase_loop ?st1 (addr div ?ps) ((addr + sz) div ?ps) = Some (0, st2)"
    and st': "st' = (if addr div ?ps \<le> last_page st2 \<and> last_page st2 \<le> (addr + sz) div ?ps
                     then st2\<lparr>last_page := 0xffffffff\<rparr> else st2)"
    by (auto simp: erase_entry[OF assms(1,2)] BD_ERROR_OK_def split: option.splits if_splits)
  have le: "addr div ?ps \<le> Suc ((addr + sz) div ?ps)"
    using div_le_mono[of addr "addr + sz" ?ps] by simp
  have "(addr + sz) div ?ps \<le> addr + sz" by simp
  moreover have "addr + sz < 2 ^ 31" using assms(1,2) by (simp add: well_formed_def)
  ultimately have "(addr + sz) div ?ps < 2 ^ 31" by linarith
  then have e: "(addr + sz) div ?ps < 2 ^ 32 - 1" by simp
  from erase_loop_success[OF l le e]
  have o: "last_page st2 = last_page st" "pagebuffer st2 = Some (replicate ?ps 0xff)"
    by simp_all
  show "pagebuffer st' = Some (replicate (pagesize st) 0xff)" using st' o by simp
  show "last_page st' =
           (if addr div pagesize st \<le> last_page st \<and> last_page st \<le> (addr + sz) div pagesize st
            then 0xffffffff else last_page st)" using st' o by simp
qed

end
